theory Spec2Isabelle
  imports Main
begin

section \<open>The agentic workflow of \<^verbatim>\<open>src/lib/agentic-workflow.ts\<close>\<close>

text \<open>
  The orchestration module is embedded function by function. Its classes share one
  \<^verbatim>\<open>SharedContext\<close> object, so every method becomes a function that takes the
  context and returns the updated one. \<^verbatim>\<open>Task\<close> objects are shared by reference
  between \<^verbatim>\<open>currentPlan.tasks\<close>, \<^verbatim>\<open>pendingTasks\<close> and
  \<^verbatim>\<open>completedTasks\<close>; the model therefore keeps the objects in a store
  (\<open>objects\<close>, indexed by reference) and the three arrays hold references.

  Two external collaborators are inputs of the model. The reasoning capability
  (\<^verbatim>\<open>think\<close> followed by \<^verbatim>\<open>parseJson<T>\<close>) yields \<open>None\<close> where
  \<^verbatim>\<open>parseJson\<close> returns \<^verbatim>\<open>null\<close> and otherwise a value of the declared type
  \<^verbatim>\<open>T\<close>, whose fields are optional wherever the code guards them with
  \<^verbatim>\<open>?.\<close>, \<^verbatim>\<open>||\<close> or \<^verbatim>\<open>??\<close>. In the planning steps of \<^verbatim>\<open>run\<close>
  (\<^verbatim>\<open>createPlan\<close>, \<^verbatim>\<open>reviewPlan\<close>, \<^verbatim>\<open>revisePlan\<close>) the call of the
  capability may also reject, and the parsed plan may have any shape on which the
  planner's \<^verbatim>\<open>.map\<close> calls and property reads throw; \<^verbatim>\<open>run\<close> catches what
  they throw. Inside the loop of \<^verbatim>\<open>run\<close> the calls of the capability are taken to
  return. The
  browser automation functions yield either a thrown value, which \<^verbatim>\<open>performAction\<close>
  catches, or their declared result. Values read from
  \<^verbatim>\<open>Date\<close> and \<^verbatim>\<open>Math.random\<close> (time stamps, the ids of sessions, memory items
  and history entries, the duration) steer no control flow and are left out of the
  records; the id of a plan is a parameter of the function that creates the plan. The
  counts of \<^verbatim>\<open>WorkflowConfig\<close> are natural numbers.
\<close>

subsection \<open>Types of \<^verbatim>\<open>src/types/agents.ts\<close>\<close>

datatype AgentRole = Orchestrator | Planner | Reviewer | Researcher | Executor

datatype TaskStatus =
  Pending | In_progress | Needs_review | Approved | Rejected | Completed | Failed

text \<open>Values of type \<^verbatim>\<open>unknown\<close>.\<close>

datatype jsval =
  JUndefined | JNull | JBool bool | JNum int | JStr string
  | JArr "jsval list" | JObj "(string \<times> jsval) list"

type_synonym ref = nat

record TaskResult =
  tr_success :: bool
  tr_data :: jsval
  tr_error :: "string option"
  tr_reviewNotes :: "string option"

record Task =
  task_id :: string
  description :: string
  status :: TaskStatus
  priority :: string
  dependencies :: "string list option"
  result :: "TaskResult option"

record Plan =
  plan_id :: string
  plan_goal :: string
  plan_tasks :: "ref list"
  estimatedSteps :: nat

record Review =
  rv_taskId :: string
  rv_approved :: bool
  rv_feedback :: string
  rv_suggestions :: "string list option"

record ExecutedAction =
  act_type :: string
  act_description :: string
  act_success :: bool
  act_result :: jsval

record ExecutionResult =
  er_taskId :: string
  er_success :: bool
  er_output :: jsval
  er_actions :: "ExecutedAction list"

record MemoryItem =
  mem_key :: string
  mem_value :: jsval
  mem_source :: AgentRole

record ContextState =
  isLoggedIn :: bool
  currentPage :: "string option"
  selectedCarer :: "string option"
  formData :: "(string \<times> jsval) list option"
  lastError :: "string option"

text \<open>\<^verbatim>\<open>Partial<ContextState>\<close>: a field is \<open>None\<close> when the update does not name it.\<close>

record StateUpdates =
  up_isLoggedIn :: "bool option"
  up_currentPage :: "string option"
  up_selectedCarer :: "string option"

text \<open>
  \<^verbatim>\<open>Partial<Task>\<close>, with the two fields that the module ever passes to
  \<^verbatim>\<open>updateTask\<close>.
\<close>

record TaskUpdates =
  up_status :: "TaskStatus option"
  up_result :: "TaskResult option"

text \<open>The \<^verbatim>\<open>input\<close> and \<^verbatim>\<open>output\<close> of a history entry, the payload of a message.\<close>

datatype payload =
  PAbsent | PNull | PGoal string | PTaskId string | PAction string
  | PPlan Plan | PReview Review | PExec ExecutionResult
  | PUpdates StateUpdates | PState ContextState

record HistoryEntry =
  h_agent :: AgentRole
  h_action :: string
  h_input :: payload
  h_output :: payload

record AgentMessage =
  msg_from :: AgentRole
  msg_to :: AgentRole
  msg_type :: string
  msg_content :: string
  msg_payload :: payload

record SharedContext =
  goal :: string
  currentPlan :: "Plan option"
  completedTasks :: "ref list"
  pendingTasks :: "ref list"
  memory :: "MemoryItem list"
  state :: ContextState
  history :: "HistoryEntry list"
  objects :: "Task list"

record WorkflowConfig =
  maxIterations :: nat
  requireReview :: bool
  autoRetry :: bool
  retryLimit :: nat
  timeout :: nat

record CompiledOutput =
  out_state :: ContextState
  out_results :: "(string \<times> TaskResult option) list"
  out_memory :: "(string \<times> jsval) list"

record WorkflowResult =
  wr_success :: bool
  wr_goal :: string
  wr_completedTasks :: nat
  wr_totalTasks :: nat
  wr_output :: "CompiledOutput option"
  wr_error :: "string option"
  wr_history :: "HistoryEntry list"

definition DEFAULT_CONFIG :: WorkflowConfig where
  "DEFAULT_CONFIG =
     \<lparr>maxIterations = 15, requireReview = True, autoRetry = True, retryLimit = 2,
      timeout = 300000\<rparr>"

subsection \<open>\<^verbatim>\<open>ContextManager\<close>\<close>

text \<open>\<^verbatim>\<open>Array.prototype.findIndex\<close>; \<open>None\<close> is the result \<^verbatim>\<open>-1\<close>.\<close>

fun findIndex :: "('a \<Rightarrow> bool) \<Rightarrow> 'a list \<Rightarrow> nat option" where
  "findIndex P [] = None"
| "findIndex P (x # xs) = (if P x then Some 0 else map_option Suc (findIndex P xs))"

definition new_context :: "string \<Rightarrow> SharedContext" where
  "new_context g =
     \<lparr>goal = g, currentPlan = None, completedTasks = [], pendingTasks = [], memory = [],
      state = \<lparr>isLoggedIn = False, currentPage = None, selectedCarer = None,
               formData = None, lastError = None\<rparr>,
      history = [], objects = []\<rparr>"

definition addHistory ::
  "AgentRole \<Rightarrow> string \<Rightarrow> payload \<Rightarrow> payload \<Rightarrow> SharedContext \<Rightarrow> SharedContext" where
  "addHistory a act i out c =
     c\<lparr>history := history c @ [\<lparr>h_agent = a, h_action = act, h_input = i, h_output = out\<rparr>]\<rparr>"

definition merge_state :: "ContextState \<Rightarrow> StateUpdates \<Rightarrow> ContextState" where
  "merge_state s u =
     s\<lparr>isLoggedIn := (case up_isLoggedIn u of None \<Rightarrow> isLoggedIn s | Some b \<Rightarrow> b),
       currentPage := (case up_currentPage u of None \<Rightarrow> currentPage s | Some p \<Rightarrow> Some p),
       selectedCarer :=
         (case up_selectedCarer u of None \<Rightarrow> selectedCarer s | Some k \<Rightarrow> Some k)\<rparr>"

definition updateState :: "StateUpdates \<Rightarrow> SharedContext \<Rightarrow> SharedContext" where
  "updateState updates c =
     (let c1 = c\<lparr>state := merge_state (state c) updates\<rparr>
      in addHistory Orchestrator ''state_update'' (PUpdates updates) (PState (state c1)) c1)"

definition setMemory :: "string \<Rightarrow> jsval \<Rightarrow> AgentRole \<Rightarrow> SharedContext \<Rightarrow> SharedContext" where
  "setMemory k v src c =
     (let existing = findIndex (\<lambda>m. mem_key m = k) (memory c);
          item = \<lparr>mem_key = k, mem_value = v, mem_source = src\<rparr>
      in case existing of
           Some i \<Rightarrow> c\<lparr>memory := (memory c)[i := item]\<rparr>
         | None \<Rightarrow> c\<lparr>memory := memory c @ [item]\<rparr>)"

definition getMemory :: "string \<Rightarrow> SharedContext \<Rightarrow> jsval" where
  "getMemory k c =
     (case find (\<lambda>m. mem_key m = k) (memory c) of
        None \<Rightarrow> JUndefined
      | Some m \<Rightarrow> mem_value m)"

definition setPlan :: "Plan \<Rightarrow> SharedContext \<Rightarrow> SharedContext" where
  "setPlan plan c = c\<lparr>currentPlan := Some plan, pendingTasks := plan_tasks plan\<rparr>"

definition assign_updates :: "Task \<Rightarrow> TaskUpdates \<Rightarrow> Task" where
  "assign_updates t u =
     t\<lparr>status := (case up_status u of None \<Rightarrow> status t | Some s \<Rightarrow> s),
       result := (case up_result u of None \<Rightarrow> result t | Some r \<Rightarrow> Some r)\<rparr>"

definition updateTask :: "string \<Rightarrow> TaskUpdates \<Rightarrow> SharedContext \<Rightarrow> SharedContext" where
  "updateTask taskId updates c =
     (case find (\<lambda>r. task_id (objects c ! r) = taskId) (pendingTasks c) of
        Some r \<Rightarrow> c\<lparr>objects := (objects c)[r := assign_updates (objects c ! r) updates]\<rparr>
      | None \<Rightarrow> c)"

definition completeTask :: "string \<Rightarrow> TaskResult option \<Rightarrow> SharedContext \<Rightarrow> SharedContext" where
  "completeTask taskId res c =
     (case findIndex (\<lambda>r. task_id (objects c ! r) = taskId) (pendingTasks c) of
        Some idx \<Rightarrow>
          (let r = pendingTasks c ! idx
           in c\<lparr>objects := (objects c)[r := (objects c ! r)\<lparr>status := Completed, result := res\<rparr>],
                completedTasks := completedTasks c @ [r],
                pendingTasks := take idx (pendingTasks c) @ drop (Suc idx) (pendingTasks c)\<rparr>)
      | None \<Rightarrow> c)"

definition selectable :: "SharedContext \<Rightarrow> ref \<Rightarrow> bool" where
  "selectable c r = (status (objects c ! r) = Pending \<or> status (objects c ! r) = Approved)"

definition getNextTask :: "SharedContext \<Rightarrow> ref option" where
  "getNextTask c = find (selectable c) (pendingTasks c)"

subsection \<open>Thrown values\<close>

text \<open>
  What a \<^verbatim>\<open>catch\<close> block receives: an \<^verbatim>\<open>Error\<close> with its message, or any other
  value. A \<^verbatim>\<open>TypeError\<close> is an \<^verbatim>\<open>Error\<close>; its message is worded by the engine,
  and the model puts the failed access in its place.
\<close>

datatype thrown = ErrorObj string | OtherThrown

definition TypeError :: "string \<Rightarrow> thrown" where
  "TypeError failed_access = ErrorObj failed_access"

subsection \<open>Responses of the reasoning capability, as \<^verbatim>\<open>parseJson<T>\<close> types them\<close>

text \<open>
  A parsed value on which the planner calls \<^verbatim>\<open>.map\<close>: \<^verbatim>\<open>undefined\<close> or
  \<^verbatim>\<open>null\<close>; an array; another falsy value (\<^verbatim>\<open>false\<close>, \<^verbatim>\<open>0\<close>, the empty
  string); another truthy value, which has no \<^verbatim>\<open>map\<close>.
\<close>

datatype 'a array_field = Nullish | Items "'a list" | Falsy | Truthy

record TaskJson =
  tj_description :: string
  tj_priority :: string
  tj_dependencies :: "nat array_field"

text \<open>An element of \<^verbatim>\<open>tasks\<close> is \<open>None\<close> where the parsed array holds \<^verbatim>\<open>null\<close>.\<close>

record PlanJson =
  pj_tasks :: "TaskJson option array_field"

record ReviewJson =
  rj_approved :: "bool option"
  rj_feedback :: "string option"
  rj_suggestions :: "string list option"

record ActionParams =
  carerCode :: "string option"
  param_formData :: "(string \<times> jsval) list option"
  submitType :: "string option"

record ActionJson =
  aj_action :: "string option"
  aj_params :: "ActionParams option"

subsection \<open>\<^verbatim>\<open>PlannerAgent\<close>\<close>

text \<open>The decimal numeral that a template literal prints for an array index.\<close>

function decimal :: "nat \<Rightarrow> string" where
  "decimal n =
     (if n < 10 then [''0123456789'' ! n]
      else decimal (n div 10) @ [''0123456789'' ! (n mod 10)])"
  by pat_completeness auto
termination
  by (relation "measure (\<lambda>n. n)") auto

declare decimal.simps [simp del]

text \<open>
  \<^verbatim>\<open>(parsed?.tasks || [])\<close> at the call of its \<^verbatim>\<open>.map\<close>: the elements that
  \<^verbatim>\<open>map\<close> visits, or the \<^verbatim>\<open>TypeError\<close> of calling what is not a function.
\<close>

definition parsed_tasks :: "PlanJson option \<Rightarrow> thrown + TaskJson option list" where
  "parsed_tasks parsed =
     (case parsed of
        None \<Rightarrow> Inr []
      | Some p \<Rightarrow>
          (case pj_tasks p of
             Nullish \<Rightarrow> Inr []
           | Falsy \<Rightarrow> Inr []
           | Items ts \<Rightarrow> Inr ts
           | Truthy \<Rightarrow> Inl (TypeError ''tasks.map is not a function'')))"

text \<open>\<^verbatim>\<open>Array.prototype.map\<close> with a callback that may throw: the first throw ends it.\<close>

fun map_throwing :: "('a \<Rightarrow> thrown + 'b) \<Rightarrow> 'a list \<Rightarrow> thrown + 'b list" where
  "map_throwing f [] = Inr []"
| "map_throwing f (x # xs) =
     (case f x of
        Inl e \<Rightarrow> Inl e
      | Inr y \<Rightarrow> (case map_throwing f xs of Inl e \<Rightarrow> Inl e | Inr ys \<Rightarrow> Inr (y # ys)))"

text \<open>Object literals become new entries of the store; their references are returned.\<close>

definition alloc :: "Task list \<Rightarrow> SharedContext \<Rightarrow> ref list \<times> SharedContext" where
  "alloc ts c =
     ([length (objects c) ..< length (objects c) + length ts], c\<lparr>objects := objects c @ ts\<rparr>)"

text \<open>
  \<^verbatim>\<open>t.dependencies?.map(d => `task-${d}`)\<close>: \<^verbatim>\<open>undefined\<close> where the
  dependencies are \<^verbatim>\<open>undefined\<close> or \<^verbatim>\<open>null\<close>, the mapped array where they are an
  array, and a \<^verbatim>\<open>TypeError\<close> where they are anything else.
\<close>

definition mapped_dependencies :: "nat array_field \<Rightarrow> thrown + string list option" where
  "mapped_dependencies deps =
     (case deps of
        Nullish \<Rightarrow> Inr None
      | Items ds \<Rightarrow> Inr (Some (map (\<lambda>d. ''task-'' @ decimal d) ds))
      | Falsy \<Rightarrow> Inl (TypeError ''t.dependencies.map is not a function'')
      | Truthy \<Rightarrow> Inl (TypeError ''t.dependencies.map is not a function''))"

text \<open>
  The callback of \<^verbatim>\<open>map\<close> in \<^verbatim>\<open>createPlan\<close>. Reading \<^verbatim>\<open>t.description\<close> throws
  where \<^verbatim>\<open>t\<close> is \<^verbatim>\<open>null\<close>.
\<close>

definition created_task :: "nat \<times> TaskJson option \<Rightarrow> thrown + Task" where
  "created_task =
     (\<lambda>(idx, element).
        case element of
          None \<Rightarrow> Inl (TypeError ''Cannot read properties of null (reading description)'')
        | Some t \<Rightarrow>
            (case mapped_dependencies (tj_dependencies t) of
               Inl e \<Rightarrow> Inl e
             | Inr deps \<Rightarrow>
                 Inr \<lparr>task_id = ''task-'' @ decimal idx,
                      description = tj_description t,
                      status = Pending,
                      priority = tj_priority t,
                      dependencies = deps,
                      result = None\<rparr>))"

text \<open>
  From the call of \<^verbatim>\<open>think\<close> to the end of \<^verbatim>\<open>map\<close> in \<^verbatim>\<open>createPlan\<close>: the
  call rejects, or the response is parsed and its tasks are mapped.
\<close>

definition created_tasks :: "thrown + PlanJson option \<Rightarrow> thrown + Task list" where
  "created_tasks response =
     (case response of
        Inl e \<Rightarrow> Inl e
      | Inr parsed \<Rightarrow>
          (case parsed_tasks parsed of
             Inl e \<Rightarrow> Inl e
           | Inr elements \<Rightarrow> map_throwing created_task (enumerate 0 elements)))"

text \<open>
  \<^verbatim>\<open>createPlan\<close> has no \<^verbatim>\<open>try\<close>: what the reasoning call or the mapping throws
  leaves it, after the \<^verbatim>\<open>create_plan\<close> entry of the history has been written. The
  result holds the thrown value or the plan, and the context as the method leaves it.
\<close>

definition createPlan ::
  "string \<Rightarrow> string \<Rightarrow> thrown + PlanJson option \<Rightarrow> SharedContext
   \<Rightarrow> (thrown + Plan) \<times> SharedContext" where
  "createPlan pid g response c =
     (let c1 = addHistory Planner ''create_plan'' (PGoal g) PNull c
      in case created_tasks response of
           Inl e \<Rightarrow> (Inl e, c1)
         | Inr tasks \<Rightarrow>
             (let (refs, c2) = alloc tasks c1;
                  plan = \<lparr>plan_id = pid, plan_goal = g, plan_tasks = refs,
                          estimatedSteps = length tasks\<rparr>;
                  c3 = setPlan plan c2;
                  c4 = addHistory Planner ''plan_created'' PNull (PPlan plan) c3
              in (Inr plan, c4)))"

text \<open>The callback of \<^verbatim>\<open>map\<close> in \<^verbatim>\<open>revisePlan\<close>, which does not read the dependencies.\<close>

definition revised_task :: "nat \<times> TaskJson option \<Rightarrow> thrown + Task" where
  "revised_task =
     (\<lambda>(idx, element).
        case element of
          None \<Rightarrow> Inl (TypeError ''Cannot read properties of null (reading description)'')
        | Some t \<Rightarrow>
            Inr \<lparr>task_id = ''task-r-'' @ decimal idx,
                 description = tj_description t,
                 status = Pending,
                 priority = tj_priority t,
                 dependencies = None,
                 result = None\<rparr>)"

definition revised_tasks :: "thrown + PlanJson option \<Rightarrow> thrown + Task list" where
  "revised_tasks response =
     (case response of
        Inl e \<Rightarrow> Inl e
      | Inr parsed \<Rightarrow>
          (case parsed_tasks parsed of
             Inl e \<Rightarrow> Inl e
           | Inr elements \<Rightarrow> map_throwing revised_task (enumerate 0 elements)))"

definition revisePlan ::
  "string \<Rightarrow> string \<Rightarrow> thrown + PlanJson option \<Rightarrow> SharedContext
   \<Rightarrow> (thrown + Plan) \<times> SharedContext" where
  "revisePlan pid feedback response c =
     (case revised_tasks response of
        Inl e \<Rightarrow> (Inl e, c)
      | Inr tasks \<Rightarrow>
          (let (refs, c1) = alloc tasks c;
               plan = \<lparr>plan_id = pid,
                       plan_goal = (case currentPlan c of None \<Rightarrow> [] | Some p \<Rightarrow> plan_goal p),
                       plan_tasks =
                         (case currentPlan c of
                            None \<Rightarrow> []
                          | Some p \<Rightarrow>
                              filter (\<lambda>r. status (objects c ! r) = Completed) (plan_tasks p))
                         @ refs,
                       estimatedSteps = length tasks\<rparr>
           in (Inr plan, setPlan plan c1)))"

subsection \<open>\<^verbatim>\<open>ReviewerAgent\<close>\<close>

text \<open>\<^verbatim>\<open>parsed?.approved ?? true\<close> and \<^verbatim>\<open>parsed?.feedback || dflt\<close>.\<close>

definition parsed_approved :: "ReviewJson option \<Rightarrow> bool" where
  "parsed_approved parsed =
     (case parsed of
        None \<Rightarrow> True
      | Some p \<Rightarrow> (case rj_approved p of None \<Rightarrow> True | Some b \<Rightarrow> b))"

definition parsed_feedback :: "ReviewJson option \<Rightarrow> string \<Rightarrow> string" where
  "parsed_feedback parsed dflt =
     (case parsed of
        None \<Rightarrow> dflt
      | Some p \<Rightarrow> (case rj_feedback p of None \<Rightarrow> dflt | Some f \<Rightarrow> if f = [] then dflt else f))"

definition parsed_suggestions :: "ReviewJson option \<Rightarrow> string list option" where
  "parsed_suggestions parsed = (case parsed of None \<Rightarrow> None | Some p \<Rightarrow> rj_suggestions p)"

definition reviewTaskResult ::
  "ref \<Rightarrow> jsval \<Rightarrow> ReviewJson option \<Rightarrow> SharedContext \<Rightarrow> Review \<times> SharedContext" where
  "reviewTaskResult task res parsed c =
     (let tid = task_id (objects c ! task);
          c1 = addHistory Reviewer ''review_start'' (PTaskId tid) PNull c;
          review = \<lparr>rv_taskId = tid,
                    rv_approved = parsed_approved parsed,
                    rv_feedback = parsed_feedback parsed ''Review completed'',
                    rv_suggestions = parsed_suggestions parsed\<rparr>;
          c2 = addHistory Reviewer ''review_complete'' PNull (PReview review) c1;
          c3 = updateTask tid
                 \<lparr>up_status = Some (if rv_approved review then Approved else Rejected),
                  up_result = Some \<lparr>tr_success = rv_approved review, tr_data = res,
                                    tr_error = None,
                                    tr_reviewNotes = Some (rv_feedback review)\<rparr>\<rparr> c2
      in (review, c3))"

definition reviewPlan :: "Plan \<Rightarrow> ReviewJson option \<Rightarrow> Review" where
  "reviewPlan plan parsed =
     \<lparr>rv_taskId = plan_id plan,
      rv_approved = parsed_approved parsed,
      rv_feedback = parsed_feedback parsed ''Plan approved'',
      rv_suggestions = parsed_suggestions parsed\<rparr>"

subsection \<open>\<^verbatim>\<open>ExecutorAgent\<close> and the browser automation it calls\<close>

datatype BrowserCall =
  Login | ExtractCarers | SelectCarer string | NavigateToSupervisoryHomeVisitForm
  | FillForm "(string \<times> jsval) list" | SubmitForm string | GetPageState

text \<open>What each function of \<^verbatim>\<open>browser-agent.ts\<close> answers when it is called.\<close>

record Browser =
  login :: "thrown + bool"
  extractCarers :: "thrown + jsval list"
  selectCarer :: "string \<Rightarrow> thrown + bool"
  navigateToSupervisoryHomeVisitForm :: "thrown + bool"
  fillForm :: "(string \<times> jsval) list \<Rightarrow> thrown + bool"
  submitForm :: "string \<Rightarrow> thrown + (bool \<times> string)"
  getPageState :: "thrown + (string \<times> string)"

text \<open>
  The orchestrator's mutable state: the shared context, its message list, and the
  calls that have reached the browser automation so far.
\<close>

record World =
  ctx :: SharedContext
  messages :: "AgentMessage list"
  browser_calls :: "BrowserCall list"

definition called :: "BrowserCall \<Rightarrow> World \<Rightarrow> World" where
  "called call w = w\<lparr>browser_calls := browser_calls w @ [call]\<rparr>"

text \<open>The \<^verbatim>\<open>catch\<close> block of \<^verbatim>\<open>performAction\<close>.\<close>

definition caught :: "thrown \<Rightarrow> bool \<times> jsval" where
  "caught e = (False, JStr (case e of ErrorObj m \<Rightarrow> m | OtherThrown \<Rightarrow> ''Unknown error''))"

definition no_updates :: StateUpdates where
  "no_updates = \<lparr>up_isLoggedIn = None, up_currentPage = None, up_selectedCarer = None\<rparr>"

text \<open>The \<^verbatim>\<open>case\<close> blocks of the \<^verbatim>\<open>switch\<close> in \<^verbatim>\<open>performAction\<close>, one by one.\<close>

definition perform_LOGIN :: "Browser \<Rightarrow> World \<Rightarrow> (bool \<times> jsval) \<times> World" where
  "perform_LOGIN b w =
     (let w1 = called Login w
      in case login b of
           Inl e \<Rightarrow> (caught e, w1)
         | Inr success \<Rightarrow>
             ((success, JObj [(''isLoggedIn'', JBool success)]),
              w1\<lparr>ctx := updateState (no_updates\<lparr>up_isLoggedIn := Some success\<rparr>) (ctx w1)\<rparr>))"

definition perform_GET_CARERS :: "Browser \<Rightarrow> World \<Rightarrow> (bool \<times> jsval) \<times> World" where
  "perform_GET_CARERS b w =
     (let w1 = called ExtractCarers w
      in case extractCarers b of
           Inl e \<Rightarrow> (caught e, w1)
         | Inr carers \<Rightarrow>
             ((0 < length carers, JArr carers),
              w1\<lparr>ctx := setMemory ''carers'' (JArr carers) Executor (ctx w1)\<rparr>))"

definition perform_SELECT_CARER ::
  "Browser \<Rightarrow> ActionParams \<Rightarrow> World \<Rightarrow> (bool \<times> jsval) \<times> World" where
  "perform_SELECT_CARER b params w =
     (case carerCode params of
        None \<Rightarrow> ((False, JStr ''Carer code required''), w)
      | Some code \<Rightarrow>
          if code = [] then ((False, JStr ''Carer code required''), w)
          else
            (let w1 = called (SelectCarer code) w
             in case selectCarer b code of
                  Inl e \<Rightarrow> (caught e, w1)
                | Inr success \<Rightarrow>
                    ((success, JObj [(''selectedCarer'', JStr code)]),
                     if success
                     then w1\<lparr>ctx := updateState (no_updates\<lparr>up_selectedCarer := Some code\<rparr>)
                                      (ctx w1)\<rparr>
                     else w1)))"

definition perform_NAVIGATE_TO_FORM :: "Browser \<Rightarrow> World \<Rightarrow> (bool \<times> jsval) \<times> World" where
  "perform_NAVIGATE_TO_FORM b w =
     (let w1 = called NavigateToSupervisoryHomeVisitForm w
      in case navigateToSupervisoryHomeVisitForm b of
           Inl e \<Rightarrow> (caught e, w1)
         | Inr success \<Rightarrow>
             ((success, JUndefined),
              if success
              then w1\<lparr>ctx := updateState (no_updates\<lparr>up_currentPage := Some ''home_visit_form''\<rparr>)
                               (ctx w1)\<rparr>
              else w1))"

definition perform_FILL_FORM ::
  "Browser \<Rightarrow> ActionParams \<Rightarrow> World \<Rightarrow> (bool \<times> jsval) \<times> World" where
  "perform_FILL_FORM b params w =
     (case param_formData params of
        None \<Rightarrow> ((False, JStr ''Form data required''), w)
      | Some fd \<Rightarrow>
          (let w1 = w\<lparr>ctx := setMemory ''formData'' (JObj fd) Executor (ctx w)\<rparr>;
               w2 = called (FillForm fd) w1
           in case fillForm b fd of
                Inl e \<Rightarrow> (caught e, w2)
              | Inr success \<Rightarrow> ((success, JUndefined), w2)))"

definition perform_SUBMIT_FORM ::
  "Browser \<Rightarrow> ActionParams \<Rightarrow> World \<Rightarrow> (bool \<times> jsval) \<times> World" where
  "perform_SUBMIT_FORM b params w =
     (let st = (case submitType params of
                  None \<Rightarrow> ''draft''
                | Some s \<Rightarrow> if s = [] then ''draft'' else s);
          w1 = called (SubmitForm st) w
      in case submitForm b st of
           Inl e \<Rightarrow> (caught e, w1)
         | Inr (success, message) \<Rightarrow> ((success, JStr message), w1))"

definition perform_GET_STATE :: "Browser \<Rightarrow> World \<Rightarrow> (bool \<times> jsval) \<times> World" where
  "perform_GET_STATE b w =
     (let w1 = called GetPageState w
      in case getPageState b of
           Inl e \<Rightarrow> (caught e, w1)
         | Inr (url, title) \<Rightarrow>
             ((True, JObj [(''url'', JStr url), (''title'', JStr title)]),
              w1\<lparr>ctx := updateState (no_updates\<lparr>up_currentPage := Some url\<rparr>) (ctx w1)\<rparr>))"

definition performAction ::
  "Browser \<Rightarrow> string \<Rightarrow> ActionParams \<Rightarrow> World \<Rightarrow> (bool \<times> jsval) \<times> World" where
  "performAction b act params w =
     (if act = ''LOGIN'' then perform_LOGIN b w
      else if act = ''GET_CARERS'' then perform_GET_CARERS b w
      else if act = ''SELECT_CARER'' then perform_SELECT_CARER b params w
      else if act = ''NAVIGATE_TO_FORM'' then perform_NAVIGATE_TO_FORM b w
      else if act = ''FILL_FORM'' then perform_FILL_FORM b params w
      else if act = ''SUBMIT_FORM'' then perform_SUBMIT_FORM b params w
      else if act = ''GET_STATE'' then perform_GET_STATE b w
      else ((False, JStr (''Unknown action: '' @ act)), w))"

text \<open>
  \<^verbatim>\<open>!parsed?.action\<close>: the response did not parse, or it names no action, or it names
  the empty string.
\<close>

definition parsed_action :: "ActionJson option \<Rightarrow> (string \<times> ActionParams) option" where
  "parsed_action parsed =
     (case parsed of
        None \<Rightarrow> None
      | Some p \<Rightarrow>
          (case aj_action p of
             None \<Rightarrow> None
           | Some a \<Rightarrow>
               if a = [] then None
               else Some (a, case aj_params p of
                               None \<Rightarrow> \<lparr>carerCode = None, param_formData = None,
                                         submitType = None\<rparr>
                             | Some q \<Rightarrow> q)))"

definition execute ::
  "ActionJson option \<Rightarrow> Browser \<Rightarrow> ref \<Rightarrow> World \<Rightarrow> ExecutionResult \<times> World" where
  "execute parsed b task w =
     (let tid = task_id (objects (ctx w) ! task);
          w1 = w\<lparr>ctx := addHistory Executor ''execute_start'' (PTaskId tid) PNull (ctx w)\<rparr>
      in case parsed_action parsed of
           None \<Rightarrow>
             (\<lparr>er_taskId = tid, er_success = False, er_output = JUndefined, er_actions = []\<rparr>,
              w1)
         | Some (act, params) \<Rightarrow>
             (let ((success, data), w2) = performAction b act params w1;
                  res = \<lparr>er_taskId = tid, er_success = success, er_output = data,
                         er_actions = [\<lparr>act_type = ''browser'', act_description = act,
                                        act_success = success, act_result = data\<rparr>]\<rparr>
              in (res, w2\<lparr>ctx := addHistory Executor ''execute_complete'' (PAction act)
                                   (PExec res) (ctx w2)\<rparr>)))"

subsection \<open>\<^verbatim>\<open>Orchestrator\<close>\<close>

text \<open>
  What the environment answers during one run: the responses of the reasoning capability
  (to the planner, to the review of the plan and to the revision of the plan, where the
  call rejects or its response is parsed; the parsed responses to the executor and the
  reviewer in each iteration of the loop), the browser in each iteration, the
  milliseconds elapsed when an iteration ends, and the generated plan ids.
\<close>

record Env =
  created_plan_id :: string
  revised_plan_id :: string
  planner_reply :: "thrown + PlanJson option"
  plan_review_reply :: "thrown + ReviewJson option"
  revision_reply :: "thrown + PlanJson option"
  executor_reply :: "nat \<Rightarrow> ActionJson option"
  task_review_reply :: "nat \<Rightarrow> ReviewJson option"
  browser :: "nat \<Rightarrow> Browser"
  elapsed :: "nat \<Rightarrow> nat"

definition sendMessage ::
  "AgentRole \<Rightarrow> AgentRole \<Rightarrow> string \<Rightarrow> string \<Rightarrow> payload \<Rightarrow> World \<Rightarrow> World" where
  "sendMessage src dst ty content pl w =
     w\<lparr>messages := messages w @
         [\<lparr>msg_from = src, msg_to = dst, msg_type = ty, msg_content = content,
           msg_payload = pl\<rparr>]\<rparr>"

definition only_status :: "TaskStatus \<Rightarrow> TaskUpdates" where
  "only_status s = \<lparr>up_status = Some s, up_result = None\<rparr>"

text \<open>
  Steps 1 and 2 of \<^verbatim>\<open>run\<close>: the plan, its review, and one revision if rejected. The
  result holds what was thrown, if anything was, and the context at that moment.
  \<^verbatim>\<open>reviewPlan\<close> does nothing before its reasoning call, so a call that rejects
  is a branch here.
\<close>

definition plan_phase ::
  "WorkflowConfig \<Rightarrow> Env \<Rightarrow> SharedContext \<Rightarrow> thrown option \<times> SharedContext" where
  "plan_phase cfg env c =
     (case createPlan (created_plan_id env) (goal c) (planner_reply env) c of
        (Inl e, c1) \<Rightarrow> (Some e, c1)
      | (Inr plan, c1) \<Rightarrow>
          if requireReview cfg then
            (case plan_review_reply env of
               Inl e \<Rightarrow> (Some e, c1)
             | Inr parsed \<Rightarrow>
                 (let planReview = reviewPlan plan parsed
                  in if \<not> rv_approved planReview
                     then (case revisePlan (revised_plan_id env) (rv_feedback planReview)
                                  (revision_reply env) c1 of
                             (Inl e, c2) \<Rightarrow> (Some e, c2)
                           | (Inr revised, c2) \<Rightarrow> (None, c2))
                     else (None, c1)))
          else (None, c1))"

text \<open>
  The review of a task result inside the loop. The first component tells whether the
  \<^verbatim>\<open>continue\<close> of the retry branch is taken, the second is the retry counter.
\<close>

definition review_step ::
  "WorkflowConfig \<Rightarrow> ReviewJson option \<Rightarrow> nat \<Rightarrow> ref \<Rightarrow> ExecutionResult \<Rightarrow> World
   \<Rightarrow> bool \<times> nat \<times> World" where
  "review_step cfg reply retryCount task execResult w =
     (if requireReview cfg \<and> er_success execResult then
        (let (review, c1) = reviewTaskResult task (er_output execResult) reply (ctx w)
         in if \<not> rv_approved review then
              (if autoRetry cfg \<and> retryCount < retryLimit cfg
               then (True, retryCount + 1,
                     w\<lparr>ctx := updateTask (task_id (objects c1 ! task)) (only_status Pending) c1\<rparr>)
               else (False, retryCount, w\<lparr>ctx := c1\<rparr>))
            else (False, 0, w\<lparr>ctx := c1\<rparr>))
      else (False, retryCount, w))"

text \<open>The part of the loop body under the comment \<^verbatim>\<open>// Complete the task\<close>.\<close>

definition complete_step :: "ref \<Rightarrow> ExecutionResult \<Rightarrow> World \<Rightarrow> World" where
  "complete_step task execResult w =
     (let tid = task_id (objects (ctx w) ! task)
      in if er_success execResult
         then w\<lparr>ctx := completeTask tid
                         (Some \<lparr>tr_success = True, tr_data = er_output execResult,
                                tr_error = None, tr_reviewNotes = None\<rparr>) (ctx w)\<rparr>
         else sendMessage Executor Planner ''error'' ''Task failed'' (PExec execResult)
                (w\<lparr>ctx := updateTask tid (only_status Failed) (ctx w)\<rparr>))"

datatype signal = Next | Break

text \<open>
  One pass through the body of the \<^verbatim>\<open>while\<close> loop, after \<^verbatim>\<open>iteration++\<close>.
  \<^verbatim>\<open>gatherContext\<close> only reads the context and its result is not used, so it
  leaves no trace here.
\<close>

definition iteration_body ::
  "WorkflowConfig \<Rightarrow> Env \<Rightarrow> nat \<Rightarrow> nat \<Rightarrow> World \<Rightarrow> signal \<times> nat \<times> World" where
  "iteration_body cfg env iteration retryCount w =
     (case getNextTask (ctx w) of
        None \<Rightarrow> (Break, retryCount, w)
      | Some task \<Rightarrow>
          (let w1 = w\<lparr>ctx := updateTask (task_id (objects (ctx w) ! task))
                               (only_status In_progress) (ctx w)\<rparr>;
               (execResult, w2) =
                 execute (executor_reply env iteration) (browser env iteration) task w1;
               (retry, retryCount', w3) =
                 review_step cfg (task_review_reply env iteration) retryCount task execResult w2
           in if retry then (Next, retryCount', w3)
              else (if timeout cfg < elapsed env iteration then Break else Next,
                    retryCount', complete_step task execResult w3)))"

text \<open>
  The \<^verbatim>\<open>while\<close> loop. The result holds the final values of the local variables
  \<^verbatim>\<open>iteration\<close> and \<^verbatim>\<open>retryCount\<close> and the final state.
\<close>

function exec_loop ::
  "WorkflowConfig \<Rightarrow> Env \<Rightarrow> nat \<Rightarrow> nat \<Rightarrow> World \<Rightarrow> nat \<times> nat \<times> World" where
  "exec_loop cfg env iteration retryCount w =
     (if iteration < maxIterations cfg then
        (case iteration_body cfg env (iteration + 1) retryCount w of
           (Break, retryCount', w') \<Rightarrow> (iteration + 1, retryCount', w')
         | (Next, retryCount', w') \<Rightarrow> exec_loop cfg env (iteration + 1) retryCount' w')
      else (iteration, retryCount, w))"
  by pat_completeness auto
termination
  by (relation "measure (\<lambda>(cfg, env, iteration, retryCount, w). maxIterations cfg - iteration)")
     auto

declare exec_loop.simps [simp del]

definition compileOutput :: "SharedContext \<Rightarrow> CompiledOutput" where
  "compileOutput c =
     \<lparr>out_state = state c,
      out_results = map (\<lambda>r. (description (objects c ! r), result (objects c ! r)))
                      (completedTasks c),
      out_memory = map (\<lambda>m. (mem_key m, mem_value m)) (memory c)\<rparr>"

definition compile_result :: "SharedContext \<Rightarrow> WorkflowResult" where
  "compile_result c =
     \<lparr>wr_success = (length (pendingTasks c) = 0),
      wr_goal = goal c,
      wr_completedTasks = length (completedTasks c),
      wr_totalTasks = (case currentPlan c of None \<Rightarrow> 0 | Some p \<Rightarrow> length (plan_tasks p)),
      wr_output = Some (compileOutput c),
      wr_error = None,
      wr_history = history c\<rparr>"

text \<open>The result that the \<^verbatim>\<open>catch\<close> block of \<^verbatim>\<open>run\<close> returns.\<close>

definition caught_result :: "thrown \<Rightarrow> SharedContext \<Rightarrow> WorkflowResult" where
  "caught_result e c =
     \<lparr>wr_success = False,
      wr_goal = goal c,
      wr_completedTasks = length (completedTasks c),
      wr_totalTasks = (case currentPlan c of None \<Rightarrow> 0 | Some p \<Rightarrow> length (plan_tasks p)),
      wr_output = None,
      wr_error = Some (case e of ErrorObj m \<Rightarrow> m | OtherThrown \<Rightarrow> ''Unknown error''),
      wr_history = history c\<rparr>"

text \<open>The orchestrator's state when steps 1 and 2 have ended, by a throw or not.\<close>

definition start_world :: "WorkflowConfig \<Rightarrow> string \<Rightarrow> Env \<Rightarrow> World" where
  "start_world cfg g env =
     \<lparr>ctx = snd (plan_phase cfg env (new_context g)), messages = [], browser_calls = []\<rparr>"

text \<open>
  Step 3 of \<^verbatim>\<open>run\<close>, which is reached unless steps 1 and 2 throw: the final values
  of \<^verbatim>\<open>iteration\<close> and \<^verbatim>\<open>retryCount\<close> and the final state of the loop.
\<close>

definition run_loop :: "WorkflowConfig \<Rightarrow> string \<Rightarrow> Env \<Rightarrow> thrown + nat \<times> nat \<times> World" where
  "run_loop cfg g env =
     (case fst (plan_phase cfg env (new_context g)) of
        Some e \<Rightarrow> Inl e
      | None \<Rightarrow> Inr (exec_loop cfg env 0 0 (start_world cfg g env)))"

text \<open>The shared context when \<^verbatim>\<open>run\<close> returns, from its \<^verbatim>\<open>try\<close> or its \<^verbatim>\<open>catch\<close> block.\<close>

definition final_context :: "WorkflowConfig \<Rightarrow> string \<Rightarrow> Env \<Rightarrow> SharedContext" where
  "final_context cfg g env =
     (case run_loop cfg g env of
        Inl e \<Rightarrow> ctx (start_world cfg g env)
      | Inr (iteration, retryCount, w) \<Rightarrow> ctx w)"

definition run :: "WorkflowConfig \<Rightarrow> string \<Rightarrow> Env \<Rightarrow> WorkflowResult" where
  "run cfg g env =
     (case run_loop cfg g env of
        Inl e \<Rightarrow> caught_result e (final_context cfg g env)
      | Inr s \<Rightarrow> compile_result (final_context cfg g env))"

subsection \<open>Notions used to state the properties\<close>

definition id_of :: "SharedContext \<Rightarrow> ref \<Rightarrow> string" where
  "id_of c r = task_id (objects c ! r)"

definition status_of :: "SharedContext \<Rightarrow> ref \<Rightarrow> TaskStatus" where
  "status_of c r = status (objects c ! r)"

text \<open>
  The \<^verbatim>\<open>execute_start\<close> entries of the history, which \<^verbatim>\<open>execute\<close> writes each
  time it is called, and how often the executor was started on the task with a given id.
\<close>

definition exec_log :: "SharedContext \<Rightarrow> HistoryEntry list" where
  "exec_log c =
     filter (\<lambda>h. h_agent h = Executor \<and> h_action h = ''execute_start'') (history c)"

definition exec_count :: "string \<Rightarrow> SharedContext \<Rightarrow> nat" where
  "exec_count tid c = length (filter (\<lambda>h. h_input h = PTaskId tid) (exec_log c))"

text \<open>
  Whether \<^verbatim>\<open>execute\<close> reports success under a given response and browser. The
  answer does not depend on the state in which \<^verbatim>\<open>execute\<close> runs (lemma
  \<open>execute_success\<close> below), so it is read off a run in an empty state.
\<close>

definition exec_ok :: "ActionJson option \<Rightarrow> Browser \<Rightarrow> bool" where
  "exec_ok parsed b =
     er_success (fst (execute parsed b 0
       \<lparr>ctx = new_context [], messages = [], browser_calls = []\<rparr>))"

text \<open>
  The part of the orchestrator's state that the task queues, the messages and the
  execution log make up; the executor's browser actions leave it as it is.
\<close>

definition task_part ::
  "World \<Rightarrow> ref list \<times> ref list \<times> Task list \<times> Plan option \<times> string \<times> AgentMessage list
            \<times> HistoryEntry list" where
  "task_part w =
     (pendingTasks (ctx w), completedTasks (ctx w), objects (ctx w), currentPlan (ctx w),
      goal (ctx w), messages w, exec_log (ctx w))"

text \<open>A context in which one stored task was rewritten and its id kept.\<close>

definition rewritten :: "ref \<Rightarrow> SharedContext \<Rightarrow> SharedContext \<Rightarrow> bool" where
  "rewritten r c c' \<longleftrightarrow>
     length (objects c') = length (objects c)
     \<and> (\<forall>r'. id_of c' r' = id_of c r')
     \<and> (\<forall>r'. r' \<noteq> r \<longrightarrow> objects c' ! r' = objects c ! r')"

text \<open>The history entry that \<^verbatim>\<open>execute\<close> writes first.\<close>

definition execute_start :: "string \<Rightarrow> HistoryEntry" where
  "execute_start tid =
     \<lparr>h_agent = Executor, h_action = ''execute_start'', h_input = PTaskId tid, h_output = PNull\<rparr>"

text \<open>
  Two states between which only the stored task \<open>r\<close> was rewritten, ending in status
  \<open>st\<close>, while the execution log grew by \<open>lg\<close>.
\<close>

definition moved :: "ref \<Rightarrow> TaskStatus \<Rightarrow> HistoryEntry list \<Rightarrow> World \<Rightarrow> World \<Rightarrow> bool" where
  "moved r st lg w w' \<longleftrightarrow>
     pendingTasks (ctx w') = pendingTasks (ctx w)
     \<and> completedTasks (ctx w') = completedTasks (ctx w)
     \<and> currentPlan (ctx w') = currentPlan (ctx w)
     \<and> goal (ctx w') = goal (ctx w)
     \<and> messages w' = messages w
     \<and> exec_log (ctx w') = exec_log (ctx w) @ lg
     \<and> rewritten r (ctx w) (ctx w')
     \<and> status_of (ctx w') r = st"

text \<open>The message that the orchestrator sends when a task has failed.\<close>

definition task_failed :: "ExecutionResult \<Rightarrow> AgentMessage" where
  "task_failed execResult =
     \<lparr>msg_from = Executor, msg_to = Planner, msg_type = ''error'',
      msg_content = ''Task failed'', msg_payload = PExec execResult\<rparr>"

text \<open>
  The pending references point into the store and the pending tasks have pairwise
  distinct ids.
\<close>

definition pending_wf :: "SharedContext \<Rightarrow> bool" where
  "pending_wf c =
     (list_all (\<lambda>r. r < length (objects c)) (pendingTasks c)
      \<and> distinct (map (id_of c) (pendingTasks c)))"

text \<open>
  The states in which a run evaluates the condition of its \<^verbatim>\<open>while\<close> loop, each
  with the values of \<^verbatim>\<open>iteration\<close> and \<^verbatim>\<open>retryCount\<close>: the state after
  planning, if planning has not thrown, and every state that a pass through the loop
  body leaves without \<^verbatim>\<open>break\<close>.
\<close>

inductive loop_head :: "WorkflowConfig \<Rightarrow> string \<Rightarrow> Env \<Rightarrow> nat \<times> nat \<times> World \<Rightarrow> bool"
  for cfg :: WorkflowConfig and g :: string and env :: Env where
  start: "fst (plan_phase cfg env (new_context g)) = None \<Longrightarrow>
          loop_head cfg g env (0, 0, start_world cfg g env)"
| pass: "loop_head cfg g env (iteration, retryCount, w) \<Longrightarrow>
         iteration < maxIterations cfg \<Longrightarrow>
         iteration_body cfg env (iteration + 1) retryCount w = (Next, retryCount', w') \<Longrightarrow>
         loop_head cfg g env (iteration + 1, retryCount', w')"

text \<open>
  Every queued task is stored, the ids of the queued tasks are pairwise distinct, and the
  tasks of the current plan are exactly the queued ones.
\<close>

definition tasks_partitioned :: "SharedContext \<Rightarrow> bool" where
  "tasks_partitioned c \<longleftrightarrow>
     list_all (\<lambda>r. r < length (objects c)) (pendingTasks c @ completedTasks c)
     \<and> distinct (map (id_of c) (pendingTasks c @ completedTasks c))
     \<and> (case currentPlan c of
          None \<Rightarrow> False
        | Some p \<Rightarrow> distinct (plan_tasks p)
                   \<and> set (plan_tasks p) = set (pendingTasks c) \<union> set (completedTasks c))"

text \<open>
  The bookkeeping of retries at a loop head: the counter is within the limit, the task
  that is selected next has been executed at most \<open>retryCount\<close> times, the tasks
  selectable after it have not been executed, and no task has been executed more often
  than the limit plus one.
\<close>

definition retry_inv :: "WorkflowConfig \<Rightarrow> nat \<Rightarrow> SharedContext \<Rightarrow> bool" where
  "retry_inv cfg retryCount c \<longleftrightarrow>
     retryCount \<le> retryLimit cfg
     \<and> (\<forall>r \<in> set (pendingTasks c). selectable c r \<longrightarrow>
           exec_count (id_of c r) c \<le> (if getNextTask c = Some r then retryCount else 0))
     \<and> (\<forall>tid. exec_count tid c \<le> retryLimit cfg + 1)"

text \<open>
  The responses on which the planner's mapping does not throw: the reasoning call
  returns, and the parsed response is \<^verbatim>\<open>null\<close>, or its \<^verbatim>\<open>tasks\<close> are falsy, or
  they are an array without \<^verbatim>\<open>null\<close> whose elements have no dependencies or an
  array of them.
\<close>

definition mappable :: "TaskJson option \<Rightarrow> bool" where
  "mappable element =
     (case element of
        None \<Rightarrow> False
      | Some t \<Rightarrow>
          (case tj_dependencies t of
             Nullish \<Rightarrow> True | Items ds \<Rightarrow> True | Falsy \<Rightarrow> False | Truthy \<Rightarrow> False))"

definition plannable :: "thrown + PlanJson option \<Rightarrow> bool" where
  "plannable response =
     (case response of
        Inl e \<Rightarrow> False
      | Inr None \<Rightarrow> True
      | Inr (Some p) \<Rightarrow>
          (case pj_tasks p of
             Nullish \<Rightarrow> True
           | Falsy \<Rightarrow> True
           | Items elements \<Rightarrow> list_all mappable elements
           | Truthy \<Rightarrow> False))"

text \<open>The number of elements that the planner's mapping visits.\<close>

definition task_count :: "thrown + PlanJson option \<Rightarrow> nat" where
  "task_count response =
     (case response of
        Inl e \<Rightarrow> 0
      | Inr parsed \<Rightarrow> (case parsed_tasks parsed of Inl e \<Rightarrow> 0 | Inr elements \<Rightarrow> length elements))"

text \<open>The list that \<^verbatim>\<open>setMemory\<close> leaves behind, by recursion over the old list.\<close>

definition stored :: "string \<Rightarrow> MemoryItem \<Rightarrow> MemoryItem list \<Rightarrow> MemoryItem list" where
  "stored k item ms =
     (case findIndex (\<lambda>m. mem_key m = k) ms of
        Some i \<Rightarrow> ms[i := item]
      | None \<Rightarrow> ms @ [item])"

subsection \<open>Example environments\<close>

definition example_task :: TaskJson where
  "example_task =
     \<lparr>tj_description = ''check the page'', tj_priority = ''high'', tj_dependencies = Nullish\<rparr>"

text \<open>A browser in which every automation function succeeds.\<close>

definition answering_browser :: Browser where
  "answering_browser =
     \<lparr>login = Inr True, extractCarers = Inr [JStr ''FCC-18''],
      selectCarer = (\<lambda>code. Inr True), navigateToSupervisoryHomeVisitForm = Inr True,
      fillForm = (\<lambda>fd. Inr True), submitForm = (\<lambda>st. Inr (True, ''Form submitted'')),
      getPageState = Inr (''http://test.com'', ''Test Page'')\<rparr>"

text \<open>
  The planner answers with the given tasks, the plan is approved, every execution asks
  for the page state and succeeds, and every review of a result rejects it.
\<close>

definition rejecting_env :: "TaskJson list \<Rightarrow> Env" where
  "rejecting_env ts =
     \<lparr>created_plan_id = ''plan-1'', revised_plan_id = ''plan-2'',
      planner_reply = Inr (Some \<lparr>pj_tasks = Items (map Some ts)\<rparr>),
      plan_review_reply = Inr (Some \<lparr>rj_approved = Some True, rj_feedback = None,
                                      rj_suggestions = None\<rparr>),
      revision_reply = Inr None,
      executor_reply = (\<lambda>i. Some \<lparr>aj_action = Some ''GET_STATE'', aj_params = None\<rparr>),
      task_review_reply = (\<lambda>i. Some \<lparr>rj_approved = Some False,
                                         rj_feedback = Some ''wrong page'',
                                         rj_suggestions = None\<rparr>),
      browser = (\<lambda>i. answering_browser),
      elapsed = (\<lambda>i. 0)\<rparr>"

text \<open>One planned task; no response of the reasoning capability parses after that.\<close>

definition unparsable_env :: Env where
  "unparsable_env =
     \<lparr>created_plan_id = ''plan-1'', revised_plan_id = ''plan-2'',
      planner_reply = Inr (Some \<lparr>pj_tasks = Items [Some example_task]\<rparr>),
      plan_review_reply = Inr None, revision_reply = Inr None,
      executor_reply = (\<lambda>i. None), task_review_reply = (\<lambda>i. None),
      browser = (\<lambda>i. answering_browser), elapsed = (\<lambda>i. 0)\<rparr>"





section \<open>Properties\<close>

subsection \<open>Lists\<close>

lemma find_key_distinct:
  "distinct (map f xs) \<Longrightarrow> x \<in> set xs \<Longrightarrow> find (\<lambda>y. f y = f x) xs = Some x"
  by (induction xs) (auto simp: image_iff)

lemma findIndex_key_distinct:
  "distinct (map f xs) \<Longrightarrow> x \<in> set xs \<Longrightarrow>
   \<exists>i. findIndex (\<lambda>y. f y = f x) xs = Some i \<and> xs ! i = x
       \<and> take i xs @ drop (Suc i) xs = remove1 x xs"
proof (induction xs)
  case Nil
  then show ?case by simp
next
  case (Cons y ys)
  show ?case
  proof (cases "y = x")
    case True
    then show ?thesis by simp
  next
    case False
    with Cons.prems have x: "x \<in> set ys" and d: "distinct (map f ys)" and ne: "f y \<noteq> f x"
      by (auto simp: image_iff)
    from Cons.IH [OF d x] obtain i where
      "findIndex (\<lambda>y. f y = f x) ys = Some i" "ys ! i = x"
      "take i ys @ drop (Suc i) ys = remove1 x ys" by blast
    with False ne show ?thesis by simp
  qed
qed

lemma task_id_nth_update:
  "task_id t = task_id (xs ! r) \<Longrightarrow> task_id (xs[r := t] ! r') = task_id (xs ! r')"
  by (cases "r < length xs"; cases "r' = r") (simp_all add: list_update_beyond)

subsection \<open>Task operations at a pending reference\<close>

lemma pending_wfD:
  "pending_wf c \<Longrightarrow> r \<in> set (pendingTasks c) \<Longrightarrow> r < length (objects c)"
  "pending_wf c \<Longrightarrow> distinct (map (id_of c) (pendingTasks c))"
  "pending_wf c \<Longrightarrow> distinct (pendingTasks c)"
  by (auto simp: pending_wf_def list_all_iff distinct_map)

lemma updateTask_at:
  assumes "pending_wf c" "r \<in> set (pendingTasks c)"
  shows "updateTask (id_of c r) u c
         = c\<lparr>objects := (objects c)[r := assign_updates (objects c ! r) u]\<rparr>"
proof -
  have "find (\<lambda>y. id_of c y = id_of c r) (pendingTasks c) = Some r"
    using assms by (intro find_key_distinct) (auto simp: pending_wf_def)
  then show ?thesis by (simp add: updateTask_def id_of_def)
qed

lemma completeTask_at:
  assumes "pending_wf c" "r \<in> set (pendingTasks c)"
  shows "completeTask (id_of c r) res c
         = c\<lparr>objects := (objects c)[r := (objects c ! r)\<lparr>status := Completed, result := res\<rparr>],
              completedTasks := completedTasks c @ [r],
              pendingTasks := remove1 r (pendingTasks c)\<rparr>"
proof -
  obtain i where "findIndex (\<lambda>y. id_of c y = id_of c r) (pendingTasks c) = Some i"
    "pendingTasks c ! i = r"
    "take i (pendingTasks c) @ drop (Suc i) (pendingTasks c) = remove1 r (pendingTasks c)"
    using findIndex_key_distinct [of "id_of c" "pendingTasks c" r] assms
    by (auto simp: pending_wf_def)
  then show ?thesis by (simp add: completeTask_def id_of_def Let_def)
qed

lemma rewritten_refl: "rewritten r c c"
  by (simp add: rewritten_def)

lemma rewritten_trans: "rewritten r c c' \<Longrightarrow> rewritten r c' c'' \<Longrightarrow> rewritten r c c''"
  by (simp add: rewritten_def)

lemma rewritten_objects:
  "objects c' = (objects c)[r := t] \<Longrightarrow> task_id t = task_id (objects c ! r) \<Longrightarrow>
   rewritten r c c'"
  by (simp add: rewritten_def id_of_def task_id_nth_update)

lemma rewritten_same: "objects c' = objects c \<Longrightarrow> rewritten r c c'"
  by (simp add: rewritten_def id_of_def)

lemma pending_wf_rewritten:
  "pending_wf c \<Longrightarrow> rewritten r c c' \<Longrightarrow> pendingTasks c' = pendingTasks c \<Longrightarrow> pending_wf c'"
  by (simp add: pending_wf_def rewritten_def cong: map_cong list.pred_cong)

lemma remove1_as_filter: "distinct xs \<Longrightarrow> remove1 x xs = filter (\<lambda>y. y \<noteq> x) xs"
  by (induction xs) (auto intro!: filter_True [symmetric])

lemma pending_wf_remove:
  assumes "pending_wf c" "rewritten r c c'" "pendingTasks c' = remove1 x (pendingTasks c)"
  shows "pending_wf c'"
proof -
  let ?ps = "filter (\<lambda>y. y \<noteq> x) (pendingTasks c)"
  have d: "distinct (pendingTasks c)" using assms(1) by (rule pending_wfD)
  have p: "pendingTasks c' = ?ps"
    using assms(3) d by (simp add: remove1_as_filter)
  have "id_of c' = id_of c"
    using assms(2) by (auto simp: rewritten_def)
  moreover have "distinct (map (id_of c) ?ps)"
    using assms(1) by (simp add: pending_wf_def distinct_map_filter)
  moreover have "list_all (\<lambda>r. r < length (objects c')) ?ps"
    using assms(1,2) by (auto simp: pending_wf_def rewritten_def list_all_iff)
  ultimately show ?thesis by (simp add: pending_wf_def p)
qed

subsection \<open>What history, state and memory updates leave untouched\<close>

lemma exec_log_addHistory:
  "exec_log (addHistory a act i out c)
   = exec_log c
     @ (if a = Executor \<and> act = ''execute_start''
        then [\<lparr>h_agent = a, h_action = act, h_input = i, h_output = out\<rparr>] else [])"
  by (simp add: exec_log_def addHistory_def)

lemma addHistory_fields [simp]:
  "pendingTasks (addHistory a act i out c) = pendingTasks c"
  "completedTasks (addHistory a act i out c) = completedTasks c"
  "objects (addHistory a act i out c) = objects c"
  "currentPlan (addHistory a act i out c) = currentPlan c"
  "goal (addHistory a act i out c) = goal c"
  by (simp_all add: addHistory_def)

lemma updateState_fields [simp]:
  "pendingTasks (updateState u c) = pendingTasks c"
  "completedTasks (updateState u c) = completedTasks c"
  "objects (updateState u c) = objects c"
  "currentPlan (updateState u c) = currentPlan c"
  "goal (updateState u c) = goal c"
  "exec_log (updateState u c) = exec_log c"
  by (simp_all add: updateState_def Let_def exec_log_addHistory) (simp add: exec_log_def)

lemma setMemory_fields [simp]:
  "pendingTasks (setMemory k v s c) = pendingTasks c"
  "completedTasks (setMemory k v s c) = completedTasks c"
  "objects (setMemory k v s c) = objects c"
  "currentPlan (setMemory k v s c) = currentPlan c"
  "goal (setMemory k v s c) = goal c"
  "exec_log (setMemory k v s c) = exec_log c"
  by (simp_all add: setMemory_def Let_def exec_log_def split: option.splits)

lemma task_part_called [simp]: "task_part (called x w) = task_part w"
  by (simp add: task_part_def called_def)

lemma task_part_ctx [simp]:
  "task_part (w\<lparr>ctx := updateState u c\<rparr>) = task_part (w\<lparr>ctx := c\<rparr>)"
  "task_part (w\<lparr>ctx := setMemory k v s c\<rparr>) = task_part (w\<lparr>ctx := c\<rparr>)"
  "task_part ((called x w)\<lparr>ctx := c\<rparr>) = task_part (w\<lparr>ctx := c\<rparr>)"
  "task_part (w\<lparr>ctx := ctx w\<rparr>) = task_part w"
  by (simp_all add: task_part_def called_def)

lemma ctx_called [simp]: "ctx (called x w) = ctx w"
  by (simp add: called_def)

lemma perform_task_part:
  "task_part (snd (perform_LOGIN b w)) = task_part w"
  "task_part (snd (perform_GET_CARERS b w)) = task_part w"
  "task_part (snd (perform_SELECT_CARER b params w)) = task_part w"
  "task_part (snd (perform_NAVIGATE_TO_FORM b w)) = task_part w"
  "task_part (snd (perform_FILL_FORM b params w)) = task_part w"
  "task_part (snd (perform_SUBMIT_FORM b params w)) = task_part w"
  "task_part (snd (perform_GET_STATE b w)) = task_part w"
  by (simp_all add: perform_LOGIN_def perform_GET_CARERS_def perform_SELECT_CARER_def
        perform_NAVIGATE_TO_FORM_def perform_FILL_FORM_def perform_SUBMIT_FORM_def
        perform_GET_STATE_def Let_def split: sum.splits option.splits prod.splits)

lemma performAction_task_part: "task_part (snd (performAction b act params w)) = task_part w"
  by (simp add: performAction_def perform_task_part)

lemma perform_outcome:
  "fst (perform_LOGIN b w) = fst (perform_LOGIN b w')"
  "fst (perform_GET_CARERS b w) = fst (perform_GET_CARERS b w')"
  "fst (perform_SELECT_CARER b params w) = fst (perform_SELECT_CARER b params w')"
  "fst (perform_NAVIGATE_TO_FORM b w) = fst (perform_NAVIGATE_TO_FORM b w')"
  "fst (perform_FILL_FORM b params w) = fst (perform_FILL_FORM b params w')"
  "fst (perform_SUBMIT_FORM b params w) = fst (perform_SUBMIT_FORM b params w')"
  "fst (perform_GET_STATE b w) = fst (perform_GET_STATE b w')"
  by (simp_all add: perform_LOGIN_def perform_GET_CARERS_def perform_SELECT_CARER_def
        perform_NAVIGATE_TO_FORM_def perform_FILL_FORM_def perform_SUBMIT_FORM_def
        perform_GET_STATE_def Let_def split: sum.splits option.splits prod.splits)

lemma performAction_outcome:
  "fst (performAction b act params w) = fst (performAction b act params w')"
  unfolding performAction_def
  by (simp add: perform_outcome [where w = w and w' = w'])



subsection \<open>The executor\<close>

lemma execute_success: "er_success (fst (execute parsed b r w)) = exec_ok parsed b"
proof (cases "parsed_action parsed")
  case None
  then show ?thesis by (simp add: exec_ok_def execute_def Let_def)
next
  case (Some ap)
  obtain act params where ap: "ap = (act, params)" by (cases ap)
  let ?w1 = "w\<lparr>ctx := addHistory Executor ''execute_start''
                   (PTaskId (task_id (objects (ctx w) ! r))) PNull (ctx w)\<rparr>"
  let ?e = "\<lparr>ctx = new_context [], messages = [], browser_calls = []\<rparr>"
  let ?w2 = "?e\<lparr>ctx := addHistory Executor ''execute_start''
                   (PTaskId (task_id (objects (ctx ?e) ! 0))) PNull (ctx ?e)\<rparr>"
  obtain o1 x1 where p1: "performAction b act params ?w1 = (o1, x1)" by fastforce
  obtain o2 x2 where p2: "performAction b act params ?w2 = (o2, x2)" by fastforce
  have "o1 = o2"
    using performAction_outcome [of b act params ?w1 ?w2] p1 p2 by simp
  then show ?thesis
    using Some ap p1 p2 by (simp add: exec_ok_def execute_def Let_def split: prod.splits)
qed

lemma execute_task_part:
  "task_part (snd (execute parsed b r w))
   = (case task_part w of (p, d, os, pl, g, ms, lg) \<Rightarrow>
        (p, d, os, pl, g, ms,
         lg @ [\<lparr>h_agent = Executor, h_action = ''execute_start'',
                 h_input = PTaskId (id_of (ctx w) r), h_output = PNull\<rparr>]))"
proof -
  let ?w1 = "w\<lparr>ctx := addHistory Executor ''execute_start''
                   (PTaskId (task_id (objects (ctx w) ! r))) PNull (ctx w)\<rparr>"
  have w1: "task_part ?w1 = (case task_part w of (p, d, os, pl, g, ms, lg) \<Rightarrow>
        (p, d, os, pl, g, ms,
         lg @ [\<lparr>h_agent = Executor, h_action = ''execute_start'',
                 h_input = PTaskId (id_of (ctx w) r), h_output = PNull\<rparr>]))"
    by (simp add: task_part_def exec_log_addHistory id_of_def)
  show ?thesis
  proof (cases "parsed_action parsed")
    case None
    then show ?thesis
      using w1 by (simp add: execute_def Let_def)
  next
    case (Some ap)
    obtain act params where ap: "ap = (act, params)" by (cases ap)
    obtain o1 x1 where p1: "performAction b act params ?w1 = (o1, x1)" by fastforce
    have x1: "task_part x1 = task_part ?w1"
      using performAction_task_part [of b act params ?w1] p1 by simp
    have "\<exists>res. snd (execute parsed b r w) =
          x1\<lparr>ctx := addHistory Executor ''execute_complete'' (PAction act) (PExec res) (ctx x1)\<rparr>"
      using Some ap p1 by (auto simp: execute_def Let_def split: prod.splits)
    then obtain res where "snd (execute parsed b r w) =
          x1\<lparr>ctx := addHistory Executor ''execute_complete'' (PAction act) (PExec res) (ctx x1)\<rparr>"
      by blast
    then have "task_part (snd (execute parsed b r w)) = task_part x1"
      by (simp add: task_part_def exec_log_addHistory)
    then show ?thesis using x1 w1 by simp
  qed
qed

subsection \<open>Rewriting the task in progress\<close>

lemma moved_trans:
  "moved r st lg w w' \<Longrightarrow> moved r st' lg' w' w'' \<Longrightarrow> moved r st' (lg @ lg') w w''"
  by (simp add: moved_def rewritten_def)

lemma moved_pending_wf: "pending_wf (ctx w) \<Longrightarrow> moved r st lg w w' \<Longrightarrow> pending_wf (ctx w')"
  by (auto simp: moved_def intro: pending_wf_rewritten)

lemma moved_id_of: "moved r st lg w w' \<Longrightarrow> id_of (ctx w') r' = id_of (ctx w) r'"
  by (simp add: moved_def rewritten_def)

lemma moved_updateTask:
  assumes "pending_wf (ctx w)" "r \<in> set (pendingTasks (ctx w))" "up_status u = Some st"
  shows "moved r st [] w (w\<lparr>ctx := updateTask (id_of (ctx w) r) u (ctx w)\<rparr>)"
proof -
  let ?t = "assign_updates (objects (ctx w) ! r) u"
  let ?c' = "(ctx w)\<lparr>objects := (objects (ctx w))[r := ?t]\<rparr>"
  have eq: "updateTask (id_of (ctx w) r) u (ctx w) = ?c'"
    using assms(1,2) by (rule updateTask_at)
  have len: "r < length (objects (ctx w))"
    using assms(1,2) by (rule pending_wfD)
  have id: "task_id ?t = task_id (objects (ctx w) ! r)"
    by (simp add: assign_updates_def)
  have "rewritten r (ctx w) ?c'"
    by (rule rewritten_objects [where t = ?t]) (simp_all add: id)
  moreover have "status_of ?c' r = st"
    using len assms(3) by (simp add: status_of_def assign_updates_def)
  moreover have "exec_log ?c' = exec_log (ctx w)"
    by (simp add: exec_log_def)
  ultimately show ?thesis
    unfolding eq by (simp add: moved_def)
qed

lemma moved_addHistory:
  "a \<noteq> Executor \<Longrightarrow>
   moved r (status_of (ctx w) r) [] w (w\<lparr>ctx := addHistory a act i out (ctx w)\<rparr>)"
  by (simp add: moved_def exec_log_addHistory rewritten_same status_of_def)

lemma moved_execute:
  "moved r' (status_of (ctx w) r') [execute_start (id_of (ctx w) r)] w
     (snd (execute parsed b r w))"
  using execute_task_part [of parsed b r w]
  by (simp add: task_part_def moved_def rewritten_same status_of_def execute_start_def)


subsection \<open>The reviewer\<close>

lemma reviewTaskResult_effect:
  assumes "pending_wf (ctx w)" "r \<in> set (pendingTasks (ctx w))"
    and "reviewTaskResult r out reply (ctx w) = (review, c')"
  shows "rv_approved review = parsed_approved reply"
    and "moved r (if parsed_approved reply then Approved else Rejected) [] w (w\<lparr>ctx := c'\<rparr>)"
proof -
  let ?tid = "id_of (ctx w) r"
  let ?w1 = "w\<lparr>ctx := addHistory Reviewer ''review_start'' (PTaskId ?tid) PNull (ctx w)\<rparr>"
  let ?rv = "\<lparr>rv_taskId = ?tid, rv_approved = parsed_approved reply,
              rv_feedback = parsed_feedback reply ''Review completed'',
              rv_suggestions = parsed_suggestions reply\<rparr>"
  let ?w2 = "?w1\<lparr>ctx := addHistory Reviewer ''review_complete'' PNull (PReview ?rv) (ctx ?w1)\<rparr>"
  let ?u = "\<lparr>up_status = Some (if rv_approved ?rv then Approved else Rejected),
             up_result = Some \<lparr>tr_success = rv_approved ?rv, tr_data = out, tr_error = None,
                               tr_reviewNotes = Some (rv_feedback ?rv)\<rparr>\<rparr>"
  have m1: "moved r (status_of (ctx w) r) [] w ?w1"
    by (rule moved_addHistory) simp
  have m2: "moved r (status_of (ctx ?w1) r) [] ?w1 ?w2"
    by (rule moved_addHistory) simp
  from moved_trans [OF m1 m2] have m12: "moved r (status_of (ctx ?w1) r) [] w ?w2"
    by simp
  have wf2: "pending_wf (ctx ?w2)"
    using assms(1) m12 by (rule moved_pending_wf)
  have r2: "r \<in> set (pendingTasks (ctx ?w2))"
    using assms(2) by simp
  have id2: "id_of (ctx ?w2) r = ?tid"
    using m12 by (rule moved_id_of)
  have m3: "moved r (if parsed_approved reply then Approved else Rejected) [] ?w2
              (?w2\<lparr>ctx := updateTask (id_of (ctx ?w2) r) ?u (ctx ?w2)\<rparr>)"
    using wf2 r2 by (rule moved_updateTask) simp
  have eq: "review = ?rv" "c' = updateTask ?tid ?u (ctx ?w2)"
    using assms(3) by (auto simp add: reviewTaskResult_def Let_def id_of_def)
  show "rv_approved review = parsed_approved reply"
    by (simp add: eq)
  have "?w2\<lparr>ctx := updateTask (id_of (ctx ?w2) r) ?u (ctx ?w2)\<rparr> = w\<lparr>ctx := c'\<rparr>"
    unfolding id2 eq by simp
  with moved_trans [OF m12 m3]
  show "moved r (if parsed_approved reply then Approved else Rejected) [] w (w\<lparr>ctx := c'\<rparr>)"
    by simp
qed


lemma moved_refl: "moved r (status_of (ctx w) r) [] w w"
  by (simp add: moved_def rewritten_refl)

lemma review_step_effect:
  assumes wf: "pending_wf (ctx w)" and r: "r \<in> set (pendingTasks (ctx w))"
    and step: "review_step cfg reply rc r execResult w = (retry, rc', w')"
  defines "reviewed \<equiv> requireReview cfg \<and> er_success execResult"
  defines "appr \<equiv> parsed_approved reply"
  shows "retry = (reviewed \<and> \<not> appr \<and> autoRetry cfg \<and> rc < retryLimit cfg)"
    and "rc' = (if retry then rc + 1 else if reviewed \<and> appr then 0 else rc)"
    and "moved r (if retry then Pending
                  else if reviewed then (if appr then Approved else Rejected)
                  else status_of (ctx w) r) [] w w'"
proof -
  show "retry = (reviewed \<and> \<not> appr \<and> autoRetry cfg \<and> rc < retryLimit cfg)"
    using step
    by (auto simp: review_step_def reviewed_def appr_def Let_def
          dest: reviewTaskResult_effect(1) [OF wf r] split: prod.splits if_splits)
  show "rc' = (if retry then rc + 1 else if reviewed \<and> appr then 0 else rc)"
    using step
    by (auto simp: review_step_def reviewed_def appr_def Let_def
          dest: reviewTaskResult_effect(1) [OF wf r] split: prod.splits if_splits)
  show "moved r (if retry then Pending
                  else if reviewed then (if appr then Approved else Rejected)
                  else status_of (ctx w) r) [] w w'"
  proof (cases reviewed)
    case False
    with step have "w' = w" "\<not> retry"
      by (auto simp: review_step_def reviewed_def)
    with False show ?thesis by (simp add: moved_refl)
  next
    case True
    obtain review c1 where rv: "reviewTaskResult r (er_output execResult) reply (ctx w) = (review, c1)"
      by fastforce
    note eff = reviewTaskResult_effect [OF wf r rv]
    let ?w1 = "w\<lparr>ctx := c1\<rparr>"
    have m1: "moved r (if appr then Approved else Rejected) [] w ?w1"
      using eff(2) by (simp add: appr_def)
    show ?thesis
    proof (cases retry)
      case False
      with step True rv have "w' = ?w1"
        by (auto simp: review_step_def reviewed_def Let_def split: if_splits)
      with m1 True False show ?thesis by simp
    next
      case retry: True
      have wf1: "pending_wf (ctx ?w1)" using wf m1 by (rule moved_pending_wf)
      have r1: "r \<in> set (pendingTasks (ctx ?w1))" using r m1 by (simp add: moved_def)
      have m2: "moved r Pending [] ?w1
                  (?w1\<lparr>ctx := updateTask (id_of (ctx ?w1) r) (only_status Pending) (ctx ?w1)\<rparr>)"
        using wf1 r1 by (rule moved_updateTask) (simp add: only_status_def)
      have "w' = ?w1\<lparr>ctx := updateTask (id_of (ctx ?w1) r) (only_status Pending) (ctx ?w1)\<rparr>"
        using step True rv retry
        by (auto simp: review_step_def reviewed_def Let_def id_of_def split: if_splits)
      with moved_trans [OF m1 m2] retry show ?thesis by simp
    qed
  qed
qed

subsection \<open>Completion and failure\<close>

lemma complete_step_success:
  assumes wf: "pending_wf (ctx w)" and r: "r \<in> set (pendingTasks (ctx w))"
    and ok: "er_success execResult"
  shows "pendingTasks (ctx (complete_step r execResult w)) = remove1 r (pendingTasks (ctx w))"
    and "completedTasks (ctx (complete_step r execResult w)) = completedTasks (ctx w) @ [r]"
    and "currentPlan (ctx (complete_step r execResult w)) = currentPlan (ctx w)"
    and "goal (ctx (complete_step r execResult w)) = goal (ctx w)"
    and "messages (complete_step r execResult w) = messages w"
    and "exec_log (ctx (complete_step r execResult w)) = exec_log (ctx w)"
    and "rewritten r (ctx w) (ctx (complete_step r execResult w))"
    and "status_of (ctx (complete_step r execResult w)) r = Completed"
proof -
  let ?res = "Some \<lparr>tr_success = True, tr_data = er_output execResult, tr_error = None,
                     tr_reviewNotes = None\<rparr>"
  let ?t = "(objects (ctx w) ! r)\<lparr>status := Completed, result := ?res\<rparr>"
  let ?c' = "(ctx w)\<lparr>objects := (objects (ctx w))[r := ?t],
                     completedTasks := completedTasks (ctx w) @ [r],
                     pendingTasks := remove1 r (pendingTasks (ctx w))\<rparr>"
  have "completeTask (id_of (ctx w) r) ?res (ctx w) = ?c'"
    using wf r by (rule completeTask_at)
  then have eq: "complete_step r execResult w = w\<lparr>ctx := ?c'\<rparr>"
    using ok by (simp add: complete_step_def Let_def id_of_def)
  have len: "r < length (objects (ctx w))"
    using wf r by (rule pending_wfD)
  show "pendingTasks (ctx (complete_step r execResult w)) = remove1 r (pendingTasks (ctx w))"
    and "completedTasks (ctx (complete_step r execResult w)) = completedTasks (ctx w) @ [r]"
    and "currentPlan (ctx (complete_step r execResult w)) = currentPlan (ctx w)"
    and "goal (ctx (complete_step r execResult w)) = goal (ctx w)"
    and "messages (complete_step r execResult w) = messages w"
    and "exec_log (ctx (complete_step r execResult w)) = exec_log (ctx w)"
    unfolding eq by (simp_all add: exec_log_def)
  show "rewritten r (ctx w) (ctx (complete_step r execResult w))"
    unfolding eq by (rule rewritten_objects [where t = ?t]) simp_all
  show "status_of (ctx (complete_step r execResult w)) r = Completed"
    unfolding eq using len by (simp add: status_of_def)
qed

lemma complete_step_failure:
  assumes wf: "pending_wf (ctx w)" and r: "r \<in> set (pendingTasks (ctx w))"
    and ok: "\<not> er_success execResult"
  shows "moved r Failed [] w ((complete_step r execResult w)\<lparr>messages := messages w\<rparr>)"
    and "messages (complete_step r execResult w) = messages w @ [task_failed execResult]"
proof -
  let ?w1 = "w\<lparr>ctx := updateTask (id_of (ctx w) r) (only_status Failed) (ctx w)\<rparr>"
  have m: "moved r Failed [] w ?w1"
    using wf r by (rule moved_updateTask) (simp add: only_status_def)
  have eq: "complete_step r execResult w
            = ?w1\<lparr>messages := messages w @ [task_failed execResult]\<rparr>"
    using ok by (simp add: complete_step_def Let_def id_of_def sendMessage_def task_failed_def)
  show "moved r Failed [] w ((complete_step r execResult w)\<lparr>messages := messages w\<rparr>)"
    using m unfolding eq by (simp add: moved_def)
  show "messages (complete_step r execResult w) = messages w @ [task_failed execResult]"
    unfolding eq by simp
qed

subsection \<open>One pass through the loop body\<close>

lemma getNextTask_Some:
  "getNextTask c = Some r \<Longrightarrow> r \<in> set (pendingTasks c) \<and> selectable c r"
  by (auto simp: getNextTask_def find_Some_iff)

lemma iteration_body_effect:
  assumes wf: "pending_wf (ctx w)" and nxt: "getNextTask (ctx w) = Some r"
    and body: "iteration_body cfg env i rc w = (sg, rc', w')"
  defines "ok \<equiv> exec_ok (executor_reply env i) (browser env i)"
  defines "appr \<equiv> parsed_approved (task_review_reply env i)"
  defines "retry \<equiv> requireReview cfg \<and> ok \<and> \<not> appr \<and> autoRetry cfg \<and> rc < retryLimit cfg"
  shows "rewritten r (ctx w) (ctx w')"
    and "currentPlan (ctx w') = currentPlan (ctx w)"
    and "goal (ctx w') = goal (ctx w)"
    and "exec_log (ctx w') = exec_log (ctx w) @ [execute_start (id_of (ctx w) r)]"
    and "rc' = (if retry then rc + 1 else if requireReview cfg \<and> ok \<and> appr then 0 else rc)"
    and "sg = (if retry then Next else if timeout cfg < elapsed env i then Break else Next)"
    and "pendingTasks (ctx w')
         = (if ok \<and> \<not> retry then remove1 r (pendingTasks (ctx w)) else pendingTasks (ctx w))"
    and "completedTasks (ctx w')
         = (if ok \<and> \<not> retry then completedTasks (ctx w) @ [r] else completedTasks (ctx w))"
    and "status_of (ctx w') r = (if retry then Pending else if ok then Completed else Failed)"
    and "messages w' = messages w @ (if ok then [] else [last (messages w')])"
proof -
  have r: "r \<in> set (pendingTasks (ctx w))"
    using nxt by (simp add: getNextTask_Some)
  let ?w1 = "w\<lparr>ctx := updateTask (id_of (ctx w) r) (only_status In_progress) (ctx w)\<rparr>"
  have m1: "moved r In_progress [] w ?w1"
    using wf r by (rule moved_updateTask) (simp add: only_status_def)
  obtain execResult w2 where
    ex: "execute (executor_reply env i) (browser env i) r ?w1 = (execResult, w2)"
    by fastforce
  have okE: "er_success execResult = ok"
    using execute_success [of "executor_reply env i" "browser env i" r ?w1] ex
    by (simp add: ok_def)
  have id1: "id_of (ctx ?w1) r = id_of (ctx w) r"
    using m1 by (rule moved_id_of)
  have st1: "status_of (ctx ?w1) r = In_progress"
    using m1 by (simp add: moved_def)
  have "moved r (status_of (ctx ?w1) r) [execute_start (id_of (ctx ?w1) r)] ?w1 w2"
    using moved_execute [of r ?w1 r "executor_reply env i" "browser env i"] ex by simp
  then have m2: "moved r In_progress [execute_start (id_of (ctx w) r)] ?w1 w2"
    unfolding id1 st1 .
  from moved_trans [OF m1 m2]
  have m12: "moved r In_progress [execute_start (id_of (ctx w) r)] w w2" by simp
  have wf2: "pending_wf (ctx w2)" using wf m12 by (rule moved_pending_wf)
  have r2: "r \<in> set (pendingTasks (ctx w2))" using r m12 by (simp add: moved_def)
  obtain rt rc1 w3 where
    rs: "review_step cfg (task_review_reply env i) rc r execResult w2 = (rt, rc1, w3)"
    using prod_cases3 by blast
  note rse = review_step_effect [OF wf2 r2 rs]
  have rt: "rt = retry"
    using rse(1) by (simp add: retry_def okE appr_def)
  have rc1: "rc1 = (if retry then rc + 1 else if requireReview cfg \<and> ok \<and> appr then 0 else rc)"
    using rse(2) by (simp add: rt okE appr_def)
  obtain st where m3: "moved r st [] w2 w3" and st: "retry \<Longrightarrow> st = Pending"
    using rse(3) by (auto simp: rt)
  from moved_trans [OF m12 m3]
  have m123: "moved r st [execute_start (id_of (ctx w) r)] w w3" by simp
  have wf3: "pending_wf (ctx w3)" using wf m123 by (rule moved_pending_wf)
  have r3: "r \<in> set (pendingTasks (ctx w3))" using r m123 by (simp add: moved_def)
  have unfolded: "(sg, rc', w') =
      (if retry then (Next, rc1, w3)
       else (if timeout cfg < elapsed env i then Break else Next, rc1,
             complete_step r execResult w3))"
    using body nxt ex rs
    by (simp add: iteration_body_def Let_def id_of_def rt)
  have sg: "sg = (if retry then Next else if timeout cfg < elapsed env i then Break else Next)"
    and rc': "rc' = rc1"
    and w': "w' = (if retry then w3 else complete_step r execResult w3)"
    using unfolded by (simp_all split: if_splits)
  let ?P = "rewritten r (ctx w) (ctx w')
    \<and> currentPlan (ctx w') = currentPlan (ctx w)
    \<and> goal (ctx w') = goal (ctx w)
    \<and> exec_log (ctx w') = exec_log (ctx w) @ [execute_start (id_of (ctx w) r)]
    \<and> pendingTasks (ctx w')
         = (if ok \<and> \<not> retry then remove1 r (pendingTasks (ctx w)) else pendingTasks (ctx w))
    \<and> completedTasks (ctx w')
         = (if ok \<and> \<not> retry then completedTasks (ctx w) @ [r] else completedTasks (ctx w))
    \<and> status_of (ctx w') r = (if retry then Pending else if ok then Completed else Failed)
    \<and> messages w' = messages w @ (if ok then [] else [last (messages w')])"
  have ?P
  proof (cases retry)
    case True
    then have "ok" by (simp add: retry_def)
    with True m123 st w' show ?thesis by (simp add: moved_def)
  next
    case False
    show ?thesis
    proof (cases ok)
      case True
      note cs = complete_step_success [OF wf3 r3, of execResult]
      have "rewritten r (ctx w) (ctx w')"
        using m123 cs(7) True False w' okE
        by (auto simp: moved_def intro: rewritten_trans)
      with True False w' okE m123 cs show ?thesis
        by (simp add: moved_def)
    next
      case nok: False
      note cf = complete_step_failure [OF wf3 r3, of execResult]
      have "moved r Failed ([execute_start (id_of (ctx w) r)] @ []) w
              ((complete_step r execResult w3)\<lparr>messages := messages w3\<rparr>)"
        using m123 cf(1) nok okE by (intro moved_trans) simp_all
      with nok False w' okE cf(2) m123 show ?thesis
        by (simp add: moved_def)
    qed
  qed
  then show "rewritten r (ctx w) (ctx w')"
    and "currentPlan (ctx w') = currentPlan (ctx w)"
    and "goal (ctx w') = goal (ctx w)"
    and "exec_log (ctx w') = exec_log (ctx w) @ [execute_start (id_of (ctx w) r)]"
    and "pendingTasks (ctx w')
         = (if ok \<and> \<not> retry then remove1 r (pendingTasks (ctx w)) else pendingTasks (ctx w))"
    and "completedTasks (ctx w')
         = (if ok \<and> \<not> retry then completedTasks (ctx w) @ [r] else completedTasks (ctx w))"
    and "status_of (ctx w') r = (if retry then Pending else if ok then Completed else Failed)"
    and "messages w' = messages w @ (if ok then [] else [last (messages w')])"
    by blast+
  show "rc' = (if retry then rc + 1 else if requireReview cfg \<and> ok \<and> appr then 0 else rc)"
    using rc' rc1 by simp
  show "sg = (if retry then Next else if timeout cfg < elapsed env i then Break else Next)"
    by (rule sg)
qed

lemma iteration_body_idle:
  "getNextTask (ctx w) = None \<Longrightarrow> iteration_body cfg env i rc w = (Break, rc, w)"
  by (simp add: iteration_body_def)

subsection \<open>Task ids\<close>

lemma digit_inj:
  assumes "a < 10" "b < 10" "''0123456789'' ! a = ''0123456789'' ! b"
  shows "a = b"
proof -
  have "distinct ''0123456789''" by simp
  then show ?thesis
    using assms nth_eq_iff_index_eq [of "''0123456789''" a b] by simp
qed

lemma decimal_not_Nil: "decimal n \<noteq> []"
  by (subst decimal.simps) simp

lemma decimal_inj: "decimal m = decimal n \<Longrightarrow> m = n"
proof (induction m arbitrary: n rule: decimal.induct)
  case (1 m)
  show ?case
  proof (cases "m < 10")
    case small: True
    show ?thesis
    proof (cases "n < 10")
      case True
      with small "1.prems" show ?thesis
        by (simp add: decimal.simps [of m] decimal.simps [of n] digit_inj)
    next
      case False
      with small "1.prems" decimal_not_Nil [of "n div 10"] show ?thesis
        by (simp add: decimal.simps [of m] decimal.simps [of n])
    qed
  next
    case large: False
    show ?thesis
    proof (cases "n < 10")
      case True
      with large "1.prems" decimal_not_Nil [of "m div 10"] show ?thesis
        by (simp add: decimal.simps [of m] decimal.simps [of n])
    next
      case False
      with large "1.prems" have eq: "decimal (m div 10) = decimal (n div 10)"
        and dg: "''0123456789'' ! (m mod 10) = ''0123456789'' ! (n mod 10)"
        by (simp_all add: decimal.simps [of m] decimal.simps [of n])
      from "1.IH" [OF large eq] have "m div 10 = n div 10" .
      moreover from dg have "m mod 10 = n mod 10"
        by (intro digit_inj) simp_all
      ultimately show ?thesis
        by (metis div_mult_mod_eq)
    qed
  qed
qed

lemma map_enumerate_index:
  "map (\<lambda>(idx, t). f idx) (enumerate n ts) = map f [n..<n + length ts]"
proof -
  have "map (\<lambda>(idx, t). f idx) (enumerate n ts) = map (f \<circ> fst) (enumerate n ts)"
    by (simp add: split_def comp_def)
  also have "\<dots> = map f (map fst (enumerate n ts))"
    by (simp only: map_map)
  also have "\<dots> = map f [n..<n + length ts]"
    by (simp only: map_fst_enumerate)
  finally show ?thesis .
qed

lemma distinct_numbered:
  "distinct (map (\<lambda>(idx, t). pre @ decimal idx) (enumerate 0 ts))"
  unfolding map_enumerate_index
  by (auto simp: distinct_map inj_on_def dest: decimal_inj)


subsection \<open>Planning\<close>

lemma distinct_numbers: "distinct (map (\<lambda>i. pre @ decimal i) [0..<n])"
  by (auto simp: distinct_map inj_on_def dest: decimal_inj)

lemma map_throwing_Inr: "map_throwing f xs = Inr ys \<longleftrightarrow> map f xs = map Inr ys"
proof (induction xs arbitrary: ys)
  case Nil
  show ?case by auto
next
  case (Cons x xs)
  show ?case
  proof (cases ys)
    case Nil
    then show ?thesis by (simp split: sum.splits)
  next
    case (Cons y ys')
    with Cons.IH [of ys'] show ?thesis by (auto split: sum.splits)
  qed
qed

lemma map_throwing_returns:
  "(\<exists>ys. map_throwing f xs = Inr ys) \<longleftrightarrow> list_all (\<lambda>x. \<exists>y. f x = Inr y) xs"
  by (induction xs) (auto split: sum.splits)

lemma list_all_enumerate:
  "list_all (\<lambda>(idx, x). P x) (enumerate n xs) = list_all P xs"
proof -
  have "snd ` set (enumerate n xs) = set xs"
    by (metis map_snd_enumerate set_map)
  then show ?thesis
    by (force simp: list_all_iff)
qed

lemma created_task_returns: "(\<exists>t. created_task (idx, element) = Inr t) \<longleftrightarrow> mappable element"
  by (simp add: created_task_def mapped_dependencies_def mappable_def
        split: option.splits array_field.splits)

lemma revised_task_returns: "(\<exists>t. revised_task (idx, element) = Inr t) \<longleftrightarrow> element \<noteq> None"
  by (simp add: revised_task_def split: option.splits)

lemma created_task_fields:
  "\<forall>idx element t. created_task (idx, element) = Inr t
     \<longrightarrow> task_id t = ''task-'' @ decimal idx \<and> status t = Pending"
  by (auto simp: created_task_def mapped_dependencies_def
           split: option.splits array_field.splits sum.splits)

lemma revised_task_fields:
  "\<forall>idx element t. revised_task (idx, element) = Inr t
     \<longrightarrow> task_id t = ''task-r-'' @ decimal idx \<and> status t = Pending"
  by (auto simp: revised_task_def split: option.splits)

text \<open>The tasks that a mapping of the planner returns are numbered and pending.\<close>

lemma numbered_tasks:
  assumes "map_throwing f (enumerate 0 elements) = Inr ts"
    and "\<forall>idx element t. f (idx, element) = Inr t
           \<longrightarrow> task_id t = pre @ decimal idx \<and> status t = Pending"
  shows "length ts = length elements"
    and "\<And>r. r < length ts \<Longrightarrow> task_id (ts ! r) = pre @ decimal r"
    and "distinct (map task_id ts)"
    and "list_all (\<lambda>t. status t = Pending) ts"
proof -
  have m: "map f (enumerate 0 elements) = map Inr ts"
    using assms(1) by (simp add: map_throwing_Inr)
  from arg_cong [OF m, of length] show len: "length ts = length elements"
    by simp
  have at: "f (r, elements ! r) = Inr (ts ! r)" if "r < length ts" for r
    using arg_cong [OF m, of "\<lambda>xs. xs ! r"] that len by (simp add: nth_enumerate_eq)
  show ids: "task_id (ts ! r) = pre @ decimal r" if "r < length ts" for r
    using assms(2) at [OF that] by blast
  have "map task_id ts = map (\<lambda>i. pre @ decimal i) [0..<length ts]"
    by (rule nth_equalityI) (simp_all add: ids)
  then show "distinct (map task_id ts)"
    by (simp only: distinct_numbers)
  show "list_all (\<lambda>t. status t = Pending) ts"
    using assms(2) at by (auto simp: list_all_length)
qed

lemma created_tasks_Inr:
  assumes "created_tasks response = Inr ts"
  shows "length ts = task_count response"
    and "\<And>r. r < length ts \<Longrightarrow> task_id (ts ! r) = ''task-'' @ decimal r"
    and "distinct (map task_id ts)"
    and "list_all (\<lambda>t. status t = Pending) ts"
proof -
  obtain parsed elements where p: "response = Inr parsed" "parsed_tasks parsed = Inr elements"
    "map_throwing created_task (enumerate 0 elements) = Inr ts"
    using assms by (auto simp: created_tasks_def split: sum.splits)
  note n = numbered_tasks [OF p(3) created_task_fields]
  show "length ts = task_count response"
    using n(1) by (simp add: task_count_def p)
  show "task_id (ts ! r) = ''task-'' @ decimal r" if "r < length ts" for r
    using n(2) [OF that] .
  show "distinct (map task_id ts)" "list_all (\<lambda>t. status t = Pending) ts"
    by (rule n(3), rule n(4))
qed

lemma revised_tasks_Inr:
  assumes "revised_tasks response = Inr ts"
  shows "length ts = task_count response"
    and "\<And>r. r < length ts \<Longrightarrow> task_id (ts ! r) = ''task-r-'' @ decimal r"
    and "distinct (map task_id ts)"
    and "list_all (\<lambda>t. status t = Pending) ts"
proof -
  obtain parsed elements where p: "response = Inr parsed" "parsed_tasks parsed = Inr elements"
    "map_throwing revised_task (enumerate 0 elements) = Inr ts"
    using assms by (auto simp: revised_tasks_def split: sum.splits)
  note n = numbered_tasks [OF p(3) revised_task_fields]
  show "length ts = task_count response"
    using n(1) by (simp add: task_count_def p)
  show "task_id (ts ! r) = ''task-r-'' @ decimal r" if "r < length ts" for r
    using n(2) [OF that] .
  show "distinct (map task_id ts)" "list_all (\<lambda>t. status t = Pending) ts"
    by (rule n(3), rule n(4))
qed

text \<open>The mapping of \<^verbatim>\<open>createPlan\<close> returns on the plannable responses and on no other.\<close>

lemma created_tasks_returns: "(\<exists>ts. created_tasks response = Inr ts) \<longleftrightarrow> plannable response"
proof (cases response)
  case (Inl e)
  then show ?thesis by (simp add: created_tasks_def plannable_def)
next
  case (Inr parsed)
  have "(\<exists>t. created_task x = Inr t) \<longleftrightarrow> (case x of (idx, element) \<Rightarrow> mappable element)" for x
    by (cases x) (simp add: created_task_returns)
  then have elems: "(\<exists>ts. map_throwing created_task (enumerate 0 elements) = Inr ts)
      \<longleftrightarrow> list_all mappable elements" for elements
    unfolding map_throwing_returns
    by (simp only: list_all_enumerate)
  show ?thesis
    using Inr elems
    by (auto simp: created_tasks_def plannable_def parsed_tasks_def
             split: option.splits array_field.splits)
qed

lemma createPlan_returns:
  "(\<exists>plan c'. createPlan pid g response c = (Inr plan, c')) \<longleftrightarrow> plannable response"
  unfolding created_tasks_returns [symmetric]
  by (auto simp: createPlan_def alloc_def Let_def split: sum.splits)

lemma createPlan_throws:
  assumes "createPlan pid g response c = (Inl e, c')"
  shows "c' = addHistory Planner ''create_plan'' (PGoal g) PNull c"
    and "created_tasks response = Inl e"
  using assms by (auto simp: createPlan_def alloc_def Let_def split: sum.splits)

text \<open>A context whose queues are seeded from newly stored tasks with distinct ids.\<close>

lemma fresh_plan_partitioned:
  assumes "completedTasks c = []" "distinct (map task_id ts)"
    and "pendingTasks c' = [length (objects c)..<length (objects c) + length ts]"
    and "completedTasks c' = []" "objects c' = objects c @ ts"
    and "currentPlan c' = Some p" "plan_tasks p = pendingTasks c'"
  shows "tasks_partitioned c'"
proof -
  let ?n = "length (objects c)"
  have "map (id_of c') [?n..<?n + length ts] = map task_id ts"
    by (rule nth_equalityI) (simp_all add: id_of_def assms(5) nth_append)
  then show ?thesis
    using assms by (simp add: tasks_partitioned_def list_all_iff)
qed

lemma createPlan_effect:
  assumes "createPlan pid g response c = (Inr plan, c')"
  shows "pendingTasks c' = [length (objects c)..<length (objects c) + task_count response]"
    and "completedTasks c' = completedTasks c"
    and "\<exists>ts. objects c' = objects c @ ts \<and> length ts = task_count response
              \<and> distinct (map task_id ts) \<and> list_all (\<lambda>t. status t = Pending) ts
              \<and> (\<forall>r < length ts. task_id (ts ! r) = ''task-'' @ decimal r)"
    and "currentPlan c' = Some plan"
    and "plan_tasks plan = pendingTasks c'"
    and "exec_log c' = exec_log c"
    and "goal c' = goal c"
proof -
  obtain ts where ts: "created_tasks response = Inr ts"
    using assms by (cases "created_tasks response") (simp_all add: createPlan_def)
  note n = created_tasks_Inr [OF ts]
  let ?refs = "[length (objects c)..<length (objects c) + length ts]"
  let ?plan = "\<lparr>plan_id = pid, plan_goal = g, plan_tasks = ?refs, estimatedSteps = length ts\<rparr>"
  have eq: "plan = ?plan"
    "c' = addHistory Planner ''plan_created'' PNull (PPlan ?plan)
            (setPlan ?plan ((addHistory Planner ''create_plan'' (PGoal g) PNull c)
               \<lparr>objects := objects c @ ts\<rparr>))"
    using assms ts by (auto simp: createPlan_def alloc_def Let_def)
  have "objects c' = objects c @ ts"
    by (simp add: eq setPlan_def)
  then show "\<exists>ts. objects c' = objects c @ ts \<and> length ts = task_count response
              \<and> distinct (map task_id ts) \<and> list_all (\<lambda>t. status t = Pending) ts
              \<and> (\<forall>r < length ts. task_id (ts ! r) = ''task-'' @ decimal r)"
    using n by (intro exI [of _ ts]) simp
  show "pendingTasks c' = [length (objects c)..<length (objects c) + task_count response]"
    "completedTasks c' = completedTasks c"
    "currentPlan c' = Some plan" "plan_tasks plan = pendingTasks c'" "goal c' = goal c"
    by (simp_all add: eq setPlan_def addHistory_def n(1))
  show "exec_log c' = exec_log c"
    by (simp add: eq exec_log_addHistory) (simp add: exec_log_def setPlan_def addHistory_def)
qed

lemma revisePlan_throws: "revisePlan pid feedback response c = (Inl e, c') \<Longrightarrow> c' = c"
  by (auto simp: revisePlan_def alloc_def Let_def split: sum.splits)

lemma revisePlan_effect:
  assumes "revisePlan pid feedback response c = (Inr plan, c')"
  defines "kept \<equiv> (case currentPlan c of
                      None \<Rightarrow> []
                    | Some p \<Rightarrow> filter (\<lambda>r. status (objects c ! r) = Completed) (plan_tasks p))"
  shows "pendingTasks c'
         = kept @ [length (objects c)..<length (objects c) + task_count response]"
    and "completedTasks c' = completedTasks c"
    and "\<exists>ts. objects c' = objects c @ ts \<and> length ts = task_count response
              \<and> distinct (map task_id ts) \<and> list_all (\<lambda>t. status t = Pending) ts
              \<and> (\<forall>r < length ts. task_id (ts ! r) = ''task-r-'' @ decimal r)"
    and "currentPlan c' = Some plan"
    and "plan_tasks plan = pendingTasks c'"
    and "exec_log c' = exec_log c"
    and "goal c' = goal c"
proof -
  obtain ts where ts: "revised_tasks response = Inr ts"
    using assms(1) by (cases "revised_tasks response") (simp_all add: revisePlan_def)
  note n = revised_tasks_Inr [OF ts]
  let ?refs = "[length (objects c)..<length (objects c) + length ts]"
  let ?plan = "\<lparr>plan_id = pid,
                plan_goal = (case currentPlan c of None \<Rightarrow> [] | Some p \<Rightarrow> plan_goal p),
                plan_tasks = kept @ ?refs,
                estimatedSteps = length ts\<rparr>"
  have eq: "plan = ?plan" "c' = setPlan ?plan (c\<lparr>objects := objects c @ ts\<rparr>)"
    using assms(1) ts by (auto simp: revisePlan_def alloc_def Let_def kept_def)
  have "objects c' = objects c @ ts"
    by (simp add: eq setPlan_def)
  then show "\<exists>ts. objects c' = objects c @ ts \<and> length ts = task_count response
              \<and> distinct (map task_id ts) \<and> list_all (\<lambda>t. status t = Pending) ts
              \<and> (\<forall>r < length ts. task_id (ts ! r) = ''task-r-'' @ decimal r)"
    using n by (intro exI [of _ ts]) simp
  show "pendingTasks c' = kept @ [length (objects c)..<length (objects c) + task_count response]"
    "completedTasks c' = completedTasks c"
    "currentPlan c' = Some plan" "plan_tasks plan = pendingTasks c'" "goal c' = goal c"
    by (simp_all add: eq setPlan_def n(1))
  show "exec_log c' = exec_log c"
    by (simp add: eq exec_log_def setPlan_def)
qed

text \<open>The ways through steps 1 and 2 of \<^verbatim>\<open>run\<close>.\<close>

lemma plan_phase_cases:
  fixes cfg :: WorkflowConfig and env :: Env and c :: SharedContext
  defines "created \<equiv> createPlan (created_plan_id env) (goal c) (planner_reply env) c"
  obtains
    (create_throws) e where "fst created = Inl e" "plan_phase cfg env c = (Some e, snd created)"
  | (kept) plan where "fst created = Inr plan" "plan_phase cfg env c = (None, snd created)"
      "\<not> requireReview cfg \<or> (\<exists>parsed. plan_review_reply env = Inr parsed \<and> parsed_approved parsed)"
  | (review_throws) plan e where "fst created = Inr plan" "requireReview cfg"
      "plan_review_reply env = Inl e" "plan_phase cfg env c = (Some e, snd created)"
  | (revise_throws) plan parsed e where "fst created = Inr plan" "requireReview cfg"
      "plan_review_reply env = Inr parsed" "\<not> parsed_approved parsed"
      "revisePlan (revised_plan_id env) (rv_feedback (reviewPlan plan parsed))
         (revision_reply env) (snd created) = (Inl e, snd created)"
      "plan_phase cfg env c = (Some e, snd created)"
  | (revised) plan parsed plan2 c2 where "fst created = Inr plan" "requireReview cfg"
      "plan_review_reply env = Inr parsed" "\<not> parsed_approved parsed"
      "revisePlan (revised_plan_id env) (rv_feedback (reviewPlan plan parsed))
         (revision_reply env) (snd created) = (Inr plan2, c2)"
      "plan_phase cfg env c = (None, c2)"
proof -
  obtain res c1 where cp: "created = (res, c1)"
    by fastforce
  show thesis
  proof (cases res)
    case (Inl e)
    with cp have "plan_phase cfg env c = (Some e, snd created)"
      by (simp add: plan_phase_def created_def)
    with Inl cp show thesis by (intro create_throws [of e]) simp_all
  next
    case (Inr plan)
    note plan = Inr
    show thesis
    proof (cases "requireReview cfg")
      case False
      with cp plan have "plan_phase cfg env c = (None, snd created)"
        by (simp add: plan_phase_def created_def)
      with False cp plan show thesis by (intro kept [of plan]) simp_all
    next
      case True
      show thesis
      proof (cases "plan_review_reply env")
        case (Inl e)
        with cp plan True have "plan_phase cfg env c = (Some e, snd created)"
          by (simp add: plan_phase_def created_def)
        with Inl cp plan True show thesis by (intro review_throws [of plan e]) simp_all
      next
        case (Inr parsed)
        show thesis
        proof (cases "parsed_approved parsed")
          case appr: True
          with cp plan True Inr have "plan_phase cfg env c = (None, snd created)"
            by (simp add: plan_phase_def created_def reviewPlan_def)
          with appr Inr cp plan show thesis by (intro kept [of plan]) simp_all
        next
          case rej: False
          obtain res2 c2 where rp:
            "revisePlan (revised_plan_id env) (rv_feedback (reviewPlan plan parsed))
               (revision_reply env) c1 = (res2, c2)"
            by fastforce
          show thesis
          proof (cases res2)
            case (Inl e)
            with rp have c2: "c2 = c1" by (simp add: revisePlan_throws)
            from cp plan True Inr rej rp Inl
            have "plan_phase cfg env c = (Some e, snd created)"
              by (simp add: plan_phase_def created_def reviewPlan_def c2)
            with cp plan True Inr rej rp Inl c2 show thesis
              by (intro revise_throws [of plan parsed e]) simp_all
          next
            case res2: (Inr plan2)
            from cp plan True Inr rej rp res2
            have "plan_phase cfg env c = (None, c2)"
              by (simp add: plan_phase_def created_def reviewPlan_def)
            with cp plan True Inr rej rp res2 show thesis
              by (intro revised [of plan parsed plan2 c2]) simp_all
          qed
        qed
      qed
    qed
  qed
qed

text \<open>Whatever steps 1 and 2 do, nothing has been executed or completed after them.\<close>

lemma plan_phase_log:
  fixes cfg :: WorkflowConfig and env :: Env and g :: string
  defines "c \<equiv> snd (plan_phase cfg env (new_context g))"
  shows "exec_log c = []" and "completedTasks c = []" and "goal c = g"
proof -
  let ?c0 = "new_context g"
  let ?created = "createPlan (created_plan_id env) (goal ?c0) (planner_reply env) ?c0"
  have c0: "completedTasks ?c0 = []" "objects ?c0 = []" "exec_log ?c0 = []" "goal ?c0 = g"
    by (simp_all add: new_context_def exec_log_def)
  have f1: "exec_log (snd ?created) = [] \<and> completedTasks (snd ?created) = []
      \<and> goal (snd ?created) = g"
  proof (cases "fst ?created")
    case (Inl e)
    then have "?created = (Inl e, snd ?created)" by (metis prod.collapse)
    from createPlan_throws(1) [OF this] show ?thesis
      using c0 by (simp add: exec_log_addHistory)
  next
    case (Inr plan)
    then have "?created = (Inr plan, snd ?created)" by (metis prod.collapse)
    from createPlan_effect [OF this] show ?thesis
      using c0 by simp
  qed
  have "exec_log c = [] \<and> completedTasks c = [] \<and> goal c = g"
  proof (cases cfg env ?c0 rule: plan_phase_cases)
    case (revised plan parsed plan2 c2)
    from revisePlan_effect(2,6,7) [OF revised(5)] f1 revised(6) show ?thesis
      by (simp add: c_def)
  qed (use f1 in \<open>simp_all add: c_def\<close>)
  then show "exec_log c = []" and "completedTasks c = []" and "goal c = g"
    by simp_all
qed

text \<open>Where steps 1 and 2 do not throw, they leave a plan whose tasks are all pending.\<close>

lemma plan_phase_start:
  fixes cfg :: WorkflowConfig and env :: Env and g :: string
  assumes "fst (plan_phase cfg env (new_context g)) = None"
  defines "c \<equiv> snd (plan_phase cfg env (new_context g))"
  shows "tasks_partitioned c" and "exec_log c = []" and "completedTasks c = []" and "goal c = g"
proof -
  let ?c0 = "new_context g"
  let ?created = "createPlan (created_plan_id env) (goal ?c0) (planner_reply env) ?c0"
  have c0: "completedTasks ?c0 = []" "objects ?c0 = []" "exec_log ?c0 = []" "goal ?c0 = g"
    by (simp_all add: new_context_def exec_log_def)
  show "exec_log c = []" and "completedTasks c = []" and "goal c = g"
    using plan_phase_log [of cfg env g] by (simp_all add: c_def)
  have created: "tasks_partitioned (snd ?created) \<and> completedTasks (snd ?created) = []
      \<and> currentPlan (snd ?created) = Some plan
      \<and> filter (\<lambda>r. status (objects (snd ?created) ! r) = Completed) (plan_tasks plan) = []"
    if returned: "fst ?created = Inr plan" for plan
  proof -
    have "?created = (Inr plan, snd ?created)"
      using returned by (simp add: prod_eq_iff)
    then obtain c1 where cp: "?created = (Inr plan, c1)" ..
    note e1 = createPlan_effect [OF cp]
    obtain ts where ts: "objects c1 = ts"
      "length ts = task_count (planner_reply env)"
      "distinct (map task_id ts)" "list_all (\<lambda>t. status t = Pending) ts"
      using e1(3) c0(2) by auto
    have "tasks_partitioned c1"
      using c0(1) ts(3)
      by (rule fresh_plan_partitioned [where c = ?c0 and p = plan])
         (simp_all add: e1 c0 ts)
    moreover have "filter (\<lambda>r. status (objects c1 ! r) = Completed) (plan_tasks plan) = []"
      using ts(4) by (auto simp: filter_empty_conv e1(5) e1(1) c0 ts(1,2) list_all_length)
    moreover have "completedTasks c1 = []" "currentPlan c1 = Some plan"
      by (simp_all add: e1 c0)
    moreover have "snd ?created = c1"
      by (simp only: cp snd_conv)
    ultimately show ?thesis
      by (simp only: simp_thms)
  qed
  show "tasks_partitioned c"
  proof (cases cfg env ?c0 rule: plan_phase_cases)
    case (create_throws e)
    with assms(1) show ?thesis by simp
  next
    case (kept plan)
    with created [OF kept(1)] show ?thesis by (simp add: c_def)
  next
    case (review_throws plan e)
    with assms(1) show ?thesis by simp
  next
    case (revise_throws plan parsed e)
    with assms(1) show ?thesis by simp
  next
    case (revised plan parsed plan2 c2)
    note f1 = created [OF revised(1)]
    note e2 = revisePlan_effect [OF revised(5)]
    have pend: "pendingTasks c2
        = [length (objects (snd ?created))..<length (objects (snd ?created))
             + task_count (revision_reply env)]"
      using e2(1) f1 by simp
    obtain ts2 where ts2: "objects c2 = objects (snd ?created) @ ts2"
      "length ts2 = task_count (revision_reply env)" "distinct (map task_id ts2)"
      using e2(3) by auto
    have "tasks_partitioned c2"
      using conjunct1 [OF conjunct2 [OF f1]] ts2(3)
      by (rule fresh_plan_partitioned [where c = "snd ?created" and p = plan2])
         (simp_all add: e2(2,4,5) pend ts2 f1)
    then show ?thesis
      by (simp add: c_def revised(6))
  qed
qed

text \<open>
  Where no task of the current plan is completed, as in \<^verbatim>\<open>run\<close>, which revises the
  plan before any task is executed, \<^verbatim>\<open>pendingTasks\<close> holds the new tasks only.
\<close>

lemma revisePlan_without_completed:
  assumes "revisePlan pid feedback response c = (Inr plan, c')"
    and "currentPlan c = Some p"
    and "list_all (\<lambda>r. status (objects c ! r) \<noteq> Completed) (plan_tasks p)"
  shows "pendingTasks c'
         = [length (objects c)..<length (objects c) + task_count response]"
proof -
  have "filter (\<lambda>r. status (objects c ! r) = Completed) (plan_tasks p) = []"
    using assms(3) by (simp add: filter_empty_conv list_all_iff)
  with revisePlan_effect(1) [OF assms(1)] assms(2) show ?thesis by simp
qed

subsection \<open>Invariants of the loop\<close>

lemma tasks_partitioned_pending_wf: "tasks_partitioned c \<Longrightarrow> pending_wf c"
  by (simp add: tasks_partitioned_def pending_wf_def)

lemma iteration_body_partitioned:
  assumes inv: "tasks_partitioned (ctx w)"
    and body: "iteration_body cfg env i rc w = (sg, rc', w')"
  shows "tasks_partitioned (ctx w')"
proof (cases "getNextTask (ctx w)")
  case None
  with body show ?thesis using inv by (simp add: iteration_body_idle)
next
  case (Some r)
  have wf: "pending_wf (ctx w)" using inv by (rule tasks_partitioned_pending_wf)
  have r: "r \<in> set (pendingTasks (ctx w))" using Some by (simp add: getNextTask_Some)
  note e = iteration_body_effect [OF wf Some body]
  have ids: "id_of (ctx w') = id_of (ctx w)"
    and len: "length (objects (ctx w')) = length (objects (ctx w))"
    using e(1) by (auto simp: rewritten_def)
  obtain p where p: "currentPlan (ctx w) = Some p" "distinct (plan_tasks p)"
    "set (plan_tasks p) = set (pendingTasks (ctx w)) \<union> set (completedTasks (ctx w))"
    using inv by (auto simp: tasks_partitioned_def split: option.splits)
  have d: "distinct (map (id_of (ctx w)) (pendingTasks (ctx w) @ completedTasks (ctx w)))"
    and v: "list_all (\<lambda>r. r < length (objects (ctx w))) (pendingTasks (ctx w) @ completedTasks (ctx w))"
    using inv by (simp_all add: tasks_partitioned_def)
  consider (same) "pendingTasks (ctx w') = pendingTasks (ctx w)"
      "completedTasks (ctx w') = completedTasks (ctx w)"
    | (completed) "pendingTasks (ctx w') = remove1 r (pendingTasks (ctx w))"
      "completedTasks (ctx w') = completedTasks (ctx w) @ [r]"
    using e(7,8) by (auto split: if_splits)
  then show ?thesis
  proof cases
    case same
    with inv ids len e(2) p show ?thesis
      by (simp add: tasks_partitioned_def)
  next
    case completed
    let ?P = "pendingTasks (ctx w)" and ?C = "completedTasks (ctx w)"
    from d have dr: "distinct (?P @ ?C)" and inj: "inj_on (id_of (ctx w)) (set (?P @ ?C))"
      by (simp_all only: distinct_map)
    have s: "set (remove1 r ?P @ ?C @ [r]) = set (?P @ ?C)"
      using r dr by auto
    have "distinct (remove1 r ?P @ ?C @ [r])"
      using r dr by auto
    with inj s have "distinct (map (id_of (ctx w)) (remove1 r ?P @ ?C @ [r]))"
      by (simp only: distinct_map)
    moreover have "list_all (\<lambda>r. r < length (objects (ctx w))) (remove1 r ?P @ ?C @ [r])"
      using v s by (simp only: list_all_iff)
    ultimately show ?thesis
      using completed p s ids len e(2) by (simp add: tasks_partitioned_def)
  qed
qed


lemma find_changed_at:
  "find P xs = Some r \<Longrightarrow> (\<forall>x \<in> set xs. x \<noteq> r \<longrightarrow> Q x = P x) \<Longrightarrow> Q r \<Longrightarrow>
   find Q xs = Some r"
  by (induction xs) (auto split: if_splits)

lemma exec_count_log:
  "exec_log c' = exec_log c @ [execute_start tid] \<Longrightarrow>
   exec_count t c' = exec_count t c + (if t = tid then 1 else 0)"
  by (simp add: exec_count_def execute_start_def)

lemma iteration_body_retry_inv:
  assumes wf: "pending_wf (ctx w)" and inv: "retry_inv cfg rc (ctx w)"
    and body: "iteration_body cfg env i rc w = (sg, rc', w')"
  shows "retry_inv cfg rc' (ctx w')"
proof (cases "getNextTask (ctx w)")
  case None
  with body show ?thesis using inv by (simp add: iteration_body_idle)
next
  case (Some r)
  let ?c = "ctx w" and ?c' = "ctx w'"
  let ?N = "retryLimit cfg"
  have r: "r \<in> set (pendingTasks ?c)" and sel: "selectable ?c r"
    using Some by (simp_all add: getNextTask_Some)
  note e = iteration_body_effect [OF wf Some body]
  let ?ok = "exec_ok (executor_reply env i) (browser env i)"
  let ?retry = "requireReview cfg \<and> ?ok \<and> \<not> parsed_approved (task_review_reply env i)
                \<and> autoRetry cfg \<and> rc < ?N"
  have ids: "id_of ?c' = id_of ?c"
    and len: "length (objects ?c') = length (objects ?c)"
    and others: "\<And>r'. r' \<noteq> r \<Longrightarrow> objects ?c' ! r' = objects ?c ! r'"
    using e(1) by (auto simp: rewritten_def)
  have cnt: "\<And>t. exec_count t ?c' = exec_count t ?c + (if t = id_of ?c r then 1 else 0)"
    using e(4) by (rule exec_count_log)
  have rcN: "rc \<le> ?N"
    and bound: "\<And>t. exec_count t ?c \<le> ?N + 1"
    and sels: "\<And>r'. r' \<in> set (pendingTasks ?c) \<Longrightarrow> selectable ?c r' \<Longrightarrow>
                 exec_count (id_of ?c r') ?c \<le> (if getNextTask ?c = Some r' then rc else 0)"
    using inv by (auto simp: retry_inv_def)
  have cur: "exec_count (id_of ?c r) ?c \<le> rc"
    using sels [OF r sel] Some by simp
  have sub: "set (pendingTasks ?c') \<subseteq> set (pendingTasks ?c)"
    using e(7) set_remove1_subset [of r "pendingTasks ?c"] by (auto split: if_splits)
  have rc': "rc' \<le> ?N"
    using e(5) rcN by (auto split: if_splits)
  have all: "\<And>t. exec_count t ?c' \<le> ?N + 1"
  proof -
    fix t
    show "exec_count t ?c' \<le> ?N + 1"
      using cnt [of t] bound [of t] cur rcN by (auto split: if_splits)
  qed
  have "exec_count (id_of ?c' r') ?c' \<le> (if getNextTask ?c' = Some r' then rc' else 0)"
    if r': "r' \<in> set (pendingTasks ?c')" and s': "selectable ?c' r'" for r'
  proof (cases "r' = r")
    case False
    have in_old: "r' \<in> set (pendingTasks ?c)" using r' sub by blast
    have "selectable ?c r'"
      using s' others [OF False] by (simp add: selectable_def)
    then have "exec_count (id_of ?c r') ?c = 0"
      using sels [OF in_old] Some False by simp
    moreover have "id_of ?c r' \<noteq> id_of ?c r"
      using pending_wfD(2) [OF wf] r in_old False
      by (auto simp: distinct_map inj_on_def)
    ultimately show ?thesis
      using cnt [of "id_of ?c r'"] by (simp add: ids)
  next
    case True
    have st: "status_of ?c' r = Pending \<or> status_of ?c' r = Approved"
      using s' True by (simp add: selectable_def status_of_def)
    with e(9) have retry: ?retry
      by (auto split: if_splits)
    have pend: "pendingTasks ?c' = pendingTasks ?c"
      using e(7) retry by simp
    have "find (selectable ?c') (pendingTasks ?c) = Some r"
    proof (rule find_changed_at [where P = "selectable ?c"])
      show "find (selectable ?c) (pendingTasks ?c) = Some r"
        using Some by (simp add: getNextTask_def)
      show "\<forall>x\<in>set (pendingTasks ?c). x \<noteq> r \<longrightarrow> selectable ?c' x = selectable ?c x"
        using others by (simp add: selectable_def)
      show "selectable ?c' r" using s' True by simp
    qed
    then have nxt: "getNextTask ?c' = Some r"
      by (simp add: getNextTask_def pend)
    have "rc' = rc + 1" using e(5) retry by simp
    then show ?thesis
      using cnt [of "id_of ?c r"] cur nxt True by (simp add: ids)
  qed
  with rc' all show ?thesis
    by (simp add: retry_inv_def)
qed


lemma iteration_body_failed:
  assumes wf: "pending_wf (ctx w)" and r: "r \<in> set (pendingTasks (ctx w))"
    and failed: "status_of (ctx w) r = Failed"
    and body: "iteration_body cfg env i rc w = (sg, rc', w')"
  shows "r \<in> set (pendingTasks (ctx w'))" and "status_of (ctx w') r = Failed"
    and "id_of (ctx w') r = id_of (ctx w) r"
    and "exec_count (id_of (ctx w) r) (ctx w') = exec_count (id_of (ctx w) r) (ctx w)"
proof -
  have "r \<in> set (pendingTasks (ctx w')) \<and> status_of (ctx w') r = Failed
      \<and> id_of (ctx w') r = id_of (ctx w) r
      \<and> exec_count (id_of (ctx w) r) (ctx w') = exec_count (id_of (ctx w) r) (ctx w)"
  proof (cases "getNextTask (ctx w)")
    case None
    with body r failed show ?thesis by (simp add: iteration_body_idle)
  next
    case (Some r2)
    have r2: "r2 \<in> set (pendingTasks (ctx w))" and sel: "selectable (ctx w) r2"
      using Some by (simp_all add: getNextTask_Some)
    have ne: "r \<noteq> r2"
      using sel failed by (auto simp: selectable_def status_of_def)
    note e = iteration_body_effect [OF wf Some body]
    have "objects (ctx w') ! r = objects (ctx w) ! r" and ids: "id_of (ctx w') r = id_of (ctx w) r"
      using e(1) ne by (auto simp: rewritten_def)
    then have st: "status_of (ctx w') r = Failed"
      using failed by (simp add: status_of_def)
    have "id_of (ctx w) r \<noteq> id_of (ctx w) r2"
      using pending_wfD(2) [OF wf] r r2 ne by (auto simp: distinct_map inj_on_def)
    then have cnt: "exec_count (id_of (ctx w) r) (ctx w') = exec_count (id_of (ctx w) r) (ctx w)"
      using exec_count_log [OF e(4), of "id_of (ctx w) r"] by simp
    have "r \<in> set (pendingTasks (ctx w'))"
      using e(7) r ne by (auto split: if_splits)
    with st ids cnt show ?thesis by simp
  qed
  then show "r \<in> set (pendingTasks (ctx w'))" and "status_of (ctx w') r = Failed"
    and "id_of (ctx w') r = id_of (ctx w) r"
    and "exec_count (id_of (ctx w) r) (ctx w') = exec_count (id_of (ctx w) r) (ctx w)"
    by simp_all
qed

subsection \<open>From the loop body to the loop\<close>

lemma exec_loop_stop:
  "\<not> i < maxIterations cfg \<Longrightarrow> exec_loop cfg env i rc w = (i, rc, w)"
  by (simp add: exec_loop.simps)

lemma exec_loop_break:
  "i < maxIterations cfg \<Longrightarrow> iteration_body cfg env (i + 1) rc w = (Break, rc', w') \<Longrightarrow>
   exec_loop cfg env i rc w = (i + 1, rc', w')"
  by (simp add: exec_loop.simps)

lemma exec_loop_next:
  "i < maxIterations cfg \<Longrightarrow> iteration_body cfg env (i + 1) rc w = (Next, rc', w') \<Longrightarrow>
   exec_loop cfg env i rc w = exec_loop cfg env (i + 1) rc' w'"
  by (simp add: exec_loop.simps)

text \<open>What every pass through the body preserves holds when the loop is left.\<close>

lemma exec_loop_preserves:
  assumes step: "\<And>i rc w sg rc' w'.
      I rc w \<Longrightarrow> iteration_body cfg env i rc w = (sg, rc', w') \<Longrightarrow> I rc' w'"
    and "I rc w"
  shows "I (fst (snd (exec_loop cfg env i rc w))) (snd (snd (exec_loop cfg env i rc w)))"
  using assms(2)
proof (induction "maxIterations cfg - i" arbitrary: i rc w)
  case 0
  then show ?case by (simp add: exec_loop_stop)
next
  case (Suc n)
  then have lt: "i < maxIterations cfg" by simp
  obtain sg rc' w' where b: "iteration_body cfg env (i + 1) rc w = (sg, rc', w')"
    using prod_cases3 by blast
  have I': "I rc' w'" using Suc.prems b by (rule step)
  show ?case
  proof (cases sg)
    case Break
    with lt b I' show ?thesis by (simp add: exec_loop_break)
  next
    case Next
    have "n = maxIterations cfg - (i + 1)" using Suc.hyps(2) by simp
    from Suc.hyps(1) [OF this I'] lt b Next show ?thesis
      by (simp add: exec_loop_next)
  qed
qed

lemma loop_head_preserves:
  assumes "loop_head cfg g env s"
    and "I 0 (start_world cfg g env)"
    and "\<And>i rc w sg rc' w'. I rc w \<Longrightarrow> iteration_body cfg env i rc w = (sg, rc', w') \<Longrightarrow> I rc' w'"
  shows "I (fst (snd s)) (snd (snd s))"
  using assms(1)
proof (induction rule: loop_head.induct)
  case start
  show ?case using assms(2) by simp
next
  case (pass iteration retryCount w retryCount' w')
  then show ?case using assms(3) by fastforce
qed

lemma loop_head_planned:
  "loop_head cfg g env s \<Longrightarrow> fst (plan_phase cfg env (new_context g)) = None"
  by (induction rule: loop_head.induct) simp_all

lemma loop_head_continues:
  "loop_head cfg g env s \<Longrightarrow>
   Inr (exec_loop cfg env (fst s) (fst (snd s)) (snd (snd s))) = run_loop cfg g env"
proof (induction rule: loop_head.induct)
  case start
  then show ?case by (simp add: run_loop_def)
next
  case (pass iteration retryCount w retryCount' w')
  then show ?case by (simp add: exec_loop_next)
qed

lemma getNextTask_rewritten:
  assumes "getNextTask c = Some r" "rewritten r c c'" "pendingTasks c' = pendingTasks c"
    and "selectable c' r"
  shows "getNextTask c' = Some r"
proof -
  have "find (selectable c') (pendingTasks c) = Some r"
  proof (rule find_changed_at [where P = "selectable c"])
    show "find (selectable c) (pendingTasks c) = Some r"
      using assms(1) by (simp add: getNextTask_def)
    show "\<forall>x\<in>set (pendingTasks c). x \<noteq> r \<longrightarrow> selectable c' x = selectable c x"
      using assms(2) by (simp add: selectable_def rewritten_def)
    show "selectable c' r" by (rule assms(4))
  qed
  then show ?thesis by (simp add: getNextTask_def assms(3))
qed

text \<open>
  A task whose every result is rejected is retried until the counter reaches the limit;
  the pass after that falls through to \<^verbatim>\<open>completeTask\<close>, and the counter keeps its
  value.
\<close>

lemma rejected_until_exhausted:
  assumes rr: "requireReview cfg" and ar: "autoRetry cfg"
    and wf: "pending_wf (ctx w)" and nxt: "getNextTask (ctx w) = Some r"
    and rc: "rc \<le> retryLimit cfg"
    and rej: "\<And>j. i < j \<Longrightarrow> j \<le> i + (retryLimit cfg - rc) + 1 \<Longrightarrow>
               exec_ok (executor_reply env j) (browser env j)
               \<and> \<not> parsed_approved (task_review_reply env j)"
    and fuel: "i + (retryLimit cfg - rc) + 1 \<le> maxIterations cfg"
  shows "\<exists>w'. exec_loop cfg env i rc w
               = (if timeout cfg < elapsed env (i + (retryLimit cfg - rc) + 1)
                  then (i + (retryLimit cfg - rc) + 1, retryLimit cfg, w')
                  else exec_loop cfg env (i + (retryLimit cfg - rc) + 1) (retryLimit cfg) w')
          \<and> pendingTasks (ctx w') = remove1 r (pendingTasks (ctx w))
          \<and> completedTasks (ctx w') = completedTasks (ctx w) @ [r]
          \<and> status_of (ctx w') r = Completed
          \<and> rewritten r (ctx w) (ctx w')
          \<and> currentPlan (ctx w') = currentPlan (ctx w)
          \<and> exec_count (id_of (ctx w) r) (ctx w')
              = exec_count (id_of (ctx w) r) (ctx w) + (retryLimit cfg - rc) + 1
          \<and> (\<forall>t. t \<noteq> id_of (ctx w) r \<longrightarrow> exec_count t (ctx w') = exec_count t (ctx w))
          \<and> messages w' = messages w"
  using wf nxt rc rej fuel
proof (induction "retryLimit cfg - rc" arbitrary: i rc w)
  case 0
  then have rcN: "rc = retryLimit cfg" by simp
  have lt: "i < maxIterations cfg" using "0.prems"(5) by simp
  obtain sg rc' w' where b: "iteration_body cfg env (i + 1) rc w = (sg, rc', w')"
    using prod_cases3 by blast
  note e = iteration_body_effect [OF "0.prems"(1,2) b]
  have ok: "exec_ok (executor_reply env (i + 1)) (browser env (i + 1))"
    and na: "\<not> parsed_approved (task_review_reply env (i + 1))"
    using "0.prems"(4) [of "i + 1"] by simp_all
  have rc': "rc' = rc"
    and sg: "sg = (if timeout cfg < elapsed env (i + 1) then Break else Next)"
    using e(5,6) na rcN by simp_all
  have loop: "exec_loop cfg env i rc w
      = (if timeout cfg < elapsed env (i + 1) then (i + 1, rc, w')
         else exec_loop cfg env (i + 1) rc w')"
  proof (cases "timeout cfg < elapsed env (i + 1)")
    case True
    with b sg rc' have "iteration_body cfg env (i + 1) rc w = (Break, rc, w')" by simp
    from exec_loop_break [OF lt this] True show ?thesis by simp
  next
    case False
    with b sg rc' have "iteration_body cfg env (i + 1) rc w = (Next, rc, w')" by simp
    from exec_loop_next [OF lt this] False show ?thesis by simp
  qed
  have cnt: "exec_count (id_of (ctx w) r) (ctx w') = exec_count (id_of (ctx w) r) (ctx w) + 1"
    using exec_count_log [OF e(4), of "id_of (ctx w) r"] by simp
  have p': "pendingTasks (ctx w') = remove1 r (pendingTasks (ctx w))"
    and c': "completedTasks (ctx w') = completedTasks (ctx w) @ [r]"
    and s': "status_of (ctx w') r = Completed"
    and m': "messages w' = messages w"
    using e(7-10) ok rcN by simp_all
  have oth: "\<forall>t. t \<noteq> id_of (ctx w) r \<longrightarrow> exec_count t (ctx w') = exec_count t (ctx w)"
    using exec_count_log [OF e(4)] by simp
  show ?case
    using loop cnt oth p' c' s' m' e(1,2) rcN
    by (intro exI [of _ w']) simp
next
  case (Suc k)
  then have rcN: "rc < retryLimit cfg" and k: "k = retryLimit cfg - (rc + 1)" by simp_all
  have lt: "i < maxIterations cfg" using Suc.prems(5) by simp
  obtain sg rc' w1 where b: "iteration_body cfg env (i + 1) rc w = (sg, rc', w1)"
    using prod_cases3 by blast
  note e = iteration_body_effect [OF Suc.prems(1,2) b]
  have ok: "exec_ok (executor_reply env (i + 1)) (browser env (i + 1))"
    and na: "\<not> parsed_approved (task_review_reply env (i + 1))"
    using Suc.prems(4) [of "i + 1"] by simp_all
  have sg: "sg = Next" and rc': "rc' = rc + 1"
    and p1: "pendingTasks (ctx w1) = pendingTasks (ctx w)"
    and c1: "completedTasks (ctx w1) = completedTasks (ctx w)"
    and s1: "status_of (ctx w1) r = Pending"
    and m1: "messages w1 = messages w"
    using e(5-10) ok na rr ar rcN by simp_all
  have "iteration_body cfg env (i + 1) rc w = (Next, rc + 1, w1)"
    using b sg rc' by simp
  from exec_loop_next [OF lt this]
  have loop: "exec_loop cfg env i rc w = exec_loop cfg env (i + 1) (rc + 1) w1" .
  have wf1: "pending_wf (ctx w1)"
    using Suc.prems(1) e(1) p1 by (rule pending_wf_rewritten)
  have sel1: "selectable (ctx w1) r"
    using s1 by (simp add: selectable_def status_of_def)
  have nxt1: "getNextTask (ctx w1) = Some r"
    by (rule getNextTask_rewritten [OF Suc.prems(2) e(1) p1 sel1])
  have rc1: "rc + 1 \<le> retryLimit cfg"
    using rcN by simp
  have id1: "id_of (ctx w1) r = id_of (ctx w) r"
    using e(1) by (simp add: rewritten_def)
  have cnt1: "exec_count (id_of (ctx w) r) (ctx w1) = exec_count (id_of (ctx w) r) (ctx w) + 1"
    using exec_count_log [OF e(4), of "id_of (ctx w) r"] by simp
  have rej1: "\<And>j. i + 1 < j \<Longrightarrow> j \<le> i + 1 + (retryLimit cfg - (rc + 1)) + 1 \<Longrightarrow>
               exec_ok (executor_reply env j) (browser env j)
               \<and> \<not> parsed_approved (task_review_reply env j)"
    using Suc.prems(4) rcN by simp
  have fuel1: "i + 1 + (retryLimit cfg - (rc + 1)) + 1 \<le> maxIterations cfg"
    using Suc.prems(5) rcN by simp
  have idx: "i + 1 + (retryLimit cfg - (rc + 1)) + 1 = i + (retryLimit cfg - rc) + 1"
    using rcN by simp
  from Suc.hyps(1) [OF k wf1 nxt1 rc1 rej1 fuel1]
  obtain w' where w': "exec_loop cfg env (i + 1) (rc + 1) w1
               = (if timeout cfg < elapsed env (i + (retryLimit cfg - rc) + 1)
                  then (i + (retryLimit cfg - rc) + 1, retryLimit cfg, w')
                  else exec_loop cfg env (i + (retryLimit cfg - rc) + 1) (retryLimit cfg) w')"
    "pendingTasks (ctx w') = remove1 r (pendingTasks (ctx w1))"
    "completedTasks (ctx w') = completedTasks (ctx w1) @ [r]"
    "status_of (ctx w') r = Completed"
    "rewritten r (ctx w1) (ctx w')"
    "currentPlan (ctx w') = currentPlan (ctx w1)"
    "exec_count (id_of (ctx w1) r) (ctx w')
       = exec_count (id_of (ctx w1) r) (ctx w1) + (retryLimit cfg - (rc + 1)) + 1"
    "\<forall>t. t \<noteq> id_of (ctx w1) r \<longrightarrow> exec_count t (ctx w') = exec_count t (ctx w1)"
    "messages w' = messages w1"
    unfolding idx by blast
  have "rewritten r (ctx w) (ctx w')"
    using e(1) w'(5) by (rule rewritten_trans)
  moreover have "exec_count (id_of (ctx w) r) (ctx w')
      = exec_count (id_of (ctx w) r) (ctx w) + (retryLimit cfg - rc) + 1"
    using w'(7) cnt1 rcN by (simp add: id1)
  moreover have "\<forall>t. t \<noteq> id_of (ctx w) r \<longrightarrow> exec_count t (ctx w') = exec_count t (ctx w)"
    using w'(8) exec_count_log [OF e(4)] by (simp add: id1)
  ultimately show ?case
    using loop w'(1-4,6,9) p1 c1 m1 e(2)
    by (intro exI [of _ w']) simp
qed

subsection \<open>The state in which the loop starts\<close>

lemma start_world_tasks:
  fixes cfg :: WorkflowConfig and env :: Env and g :: string
  assumes "\<not> requireReview cfg
           \<or> (\<exists>parsed. plan_review_reply env = Inr parsed \<and> parsed_approved parsed)"
    and "plannable (planner_reply env)"
  defines "c \<equiv> ctx (start_world cfg g env)"
  defines "n \<equiv> task_count (planner_reply env)"
  shows "pendingTasks c = [0..<n]" and "length (objects c) = n"
    and "\<And>r. r < n \<Longrightarrow> status_of c r = Pending"
    and "\<And>r. r < n \<Longrightarrow> id_of c r = ''task-'' @ decimal r"
    and "messages (start_world cfg g env) = []"
    and "fst (plan_phase cfg env (new_context g)) = None"
proof -
  let ?c0 = "new_context g"
  obtain plan c1 where
    cp: "createPlan (created_plan_id env) (goal ?c0) (planner_reply env) ?c0 = (Inr plan, c1)"
    using assms(2) createPlan_returns by blast
  have ph: "plan_phase cfg env ?c0 = (None, c1)"
    using assms(1) cp by (auto simp: plan_phase_def reviewPlan_def)
  then show "fst (plan_phase cfg env (new_context g)) = None"
    by simp
  have c: "c = c1"
    using ph by (simp add: c_def start_world_def)
  note e1 = createPlan_effect [OF cp]
  obtain ts where ts: "objects c1 = ts" "length ts = n"
    "list_all (\<lambda>t. status t = Pending) ts"
    "\<forall>r < length ts. task_id (ts ! r) = ''task-'' @ decimal r"
    using e1(3) by (auto simp: new_context_def n_def)
  show "pendingTasks c = [0..<n]"
    using e1(1) by (simp add: c new_context_def n_def)
  show "length (objects c) = n" by (simp add: c ts)
  show "status_of c r = Pending" if "r < n" for r
    using that ts(3) by (simp add: c ts(1,2) status_of_def list_all_length)
  show "id_of c r = ''task-'' @ decimal r" if "r < n" for r
    using that ts(4) by (simp add: c ts(1,2) id_of_def)
  show "messages (start_world cfg g env) = []"
    by (simp add: start_world_def)
qed

lemma start_world_next:
  assumes "\<not> requireReview cfg
           \<or> (\<exists>parsed. plan_review_reply env = Inr parsed \<and> parsed_approved parsed)"
    and "plannable (planner_reply env)"
    and "0 < task_count (planner_reply env)"
  shows "getNextTask (ctx (start_world cfg g env)) = Some 0"
proof -
  note s = start_world_tasks [OF assms(1,2), where g = g]
  have "selectable (ctx (start_world cfg g env)) 0"
    using s(3) [of 0] assms(3) by (simp add: selectable_def status_of_def)
  then show ?thesis
    using assms(3) by (simp add: getNextTask_def s(1) upt_conv_Cons)
qed

lemma start_world_exec_count: "exec_count tid (ctx (start_world cfg g env)) = 0"
  using plan_phase_log(1) [of cfg env g] by (simp add: start_world_def exec_count_def)

lemma start_world_invariants:
  assumes "fst (plan_phase cfg env (new_context g)) = None"
  shows "tasks_partitioned (ctx (start_world cfg g env))"
    and "retry_inv cfg 0 (ctx (start_world cfg g env))"
proof -
  show "tasks_partitioned (ctx (start_world cfg g env))"
    using plan_phase_start(1) [OF assms] by (simp add: start_world_def)
  show "retry_inv cfg 0 (ctx (start_world cfg g env))"
    by (simp add: retry_inv_def start_world_exec_count)
qed

lemma iteration_body_pending_wf:
  assumes "pending_wf (ctx w)" "iteration_body cfg env i rc w = (sg, rc', w')"
  shows "pending_wf (ctx w')"
proof (cases "getNextTask (ctx w)")
  case None
  with assms show ?thesis by (simp add: iteration_body_idle)
next
  case (Some r)
  note e = iteration_body_effect [OF assms(1) Some assms(2)]
  show ?thesis
  proof (cases "pendingTasks (ctx w') = pendingTasks (ctx w)")
    case True
    with assms(1) e(1) show ?thesis by (rule pending_wf_rewritten)
  next
    case False
    with e(7) have "pendingTasks (ctx w') = remove1 r (pendingTasks (ctx w))"
      by (simp split: if_splits)
    with assms(1) e(1) show ?thesis by (rule pending_wf_remove)
  qed
qed

text \<open>The invariants at every loop head and when the loop is left.\<close>

lemma run_invariants:
  assumes "loop_head cfg g env (i, rc, w) \<or> Inr (i, rc, w) = run_loop cfg g env"
  shows "tasks_partitioned (ctx w)" and "retry_inv cfg rc (ctx w)"
proof -
  have planned: "fst (plan_phase cfg env (new_context g)) = None"
    using assms by (auto simp: run_loop_def dest: loop_head_planned split: option.splits)
  let ?I = "\<lambda>rc w. tasks_partitioned (ctx w) \<and> retry_inv cfg rc (ctx w)"
  have step: "?I rc' w'" if "?I rc w" "iteration_body cfg env i rc w = (sg, rc', w')"
    for i rc w sg rc' w'
    using that iteration_body_partitioned [of w cfg env i rc sg rc' w']
      iteration_body_retry_inv [of w cfg rc env i sg rc' w']
    by (simp add: tasks_partitioned_pending_wf)
  have init: "?I 0 (start_world cfg g env)"
    using planned by (simp add: start_world_invariants)
  have "?I rc w"
    using assms
  proof
    assume "loop_head cfg g env (i, rc, w)"
    then have "?I (fst (snd (i, rc, w))) (snd (snd (i, rc, w)))"
    proof (rule loop_head_preserves [where I = ?I])
      show "?I 0 (start_world cfg g env)" by (rule init)
    next
      fix i rc w sg rc' w'
      assume "?I rc w" "iteration_body cfg env i rc w = (sg, rc', w')"
      then show "?I rc' w'" by (rule step)
    qed
    then show ?thesis by simp
  next
    assume fin: "Inr (i, rc, w) = run_loop cfg g env"
    have "?I (fst (snd (exec_loop cfg env 0 0 (start_world cfg g env))))
             (snd (snd (exec_loop cfg env 0 0 (start_world cfg g env))))"
    proof (rule exec_loop_preserves [where I = ?I])
      show "?I 0 (start_world cfg g env)" by (rule init)
    next
      fix i rc w sg rc' w'
      assume "?I rc w" "iteration_body cfg env i rc w = (sg, rc', w')"
      then show "?I rc' w'" by (rule step)
    qed
    moreover have "exec_loop cfg env 0 0 (start_world cfg g env) = (i, rc, w)"
      using fin planned by (simp add: run_loop_def)
    ultimately show ?thesis by simp
  qed
  then show "tasks_partitioned (ctx w)" and "retry_inv cfg rc (ctx w)" by simp_all
qed

subsection \<open>Memory\<close>

lemma stored_Nil: "stored k item [] = [item]"
  by (simp add: stored_def)

lemma stored_Cons:
  "stored k item (m # ms) = (if mem_key m = k then item # ms else m # stored k item ms)"
  by (cases "findIndex (\<lambda>m. mem_key m = k) ms") (simp_all add: stored_def)

lemma memory_setMemory:
  "memory (setMemory k v src c) =
     stored k \<lparr>mem_key = k, mem_value = v, mem_source = src\<rparr> (memory c)"
  by (cases "findIndex (\<lambda>m. mem_key m = k) (memory c)") (simp_all add: setMemory_def stored_def)

lemma find_stored_same:
  "mem_key item = k \<Longrightarrow> find (\<lambda>m. mem_key m = k) (stored k item ms) = Some item"
  by (induction ms) (simp_all add: stored_Nil stored_Cons)

lemma find_stored_other:
  "mem_key item = k \<Longrightarrow> k' \<noteq> k \<Longrightarrow>
   find (\<lambda>m. mem_key m = k') (stored k item ms) = find (\<lambda>m. mem_key m = k') ms"
  by (induction ms) (simp_all add: stored_Nil stored_Cons)

lemma filter_stored_other:
  "mem_key item = k \<Longrightarrow>
   filter (\<lambda>m. mem_key m \<noteq> k) (stored k item ms) = filter (\<lambda>m. mem_key m \<noteq> k) ms"
  by (induction ms) (simp_all add: stored_Nil stored_Cons)

lemma filter_absent: "k \<notin> mem_key ` set ms \<Longrightarrow> filter (\<lambda>m. mem_key m = k) ms = []"
  by (induction ms) auto

lemma filter_stored_same:
  "mem_key item = k \<Longrightarrow> distinct (map mem_key ms) \<Longrightarrow>
   filter (\<lambda>m. mem_key m = k) (stored k item ms) = [item]"
  by (induction ms) (auto simp: stored_Nil stored_Cons filter_absent)

lemma keys_stored:
  "mem_key item = k \<Longrightarrow> set (map mem_key (stored k item ms)) = insert k (set (map mem_key ms))"
  by (induction ms) (auto simp: stored_Nil stored_Cons)

lemma distinct_stored:
  "mem_key item = k \<Longrightarrow> distinct (map mem_key ms) \<Longrightarrow> distinct (map mem_key (stored k item ms))"
proof (induction ms)
  case Nil
  then show ?case by (simp add: stored_Nil)
next
  case (Cons m ms)
  show ?case
  proof (cases "mem_key m = k")
    case True
    with Cons.prems show ?thesis by (simp add: stored_Cons)
  next
    case False
    from Cons.prems have "mem_key m \<notin> set (map mem_key ms)" by simp
    with False Cons.prems(1) have "mem_key m \<notin> set (map mem_key (stored k item ms))"
      by (simp only: keys_stored) simp
    with False Cons show ?thesis by (simp add: stored_Cons)
  qed
qed

text \<open>
  The keys of the memory are pairwise distinct in every context that the module builds:
  the constructor starts with an empty memory and \<^verbatim>\<open>setMemory\<close> is its only writer.
\<close>

lemma memory_keys_new_context: "distinct (map mem_key (memory (new_context g)))"
  by (simp add: new_context_def)

lemma memory_keys_setMemory:
  "distinct (map mem_key (memory c)) \<Longrightarrow> distinct (map mem_key (memory (setMemory k v src c)))"
  by (simp add: memory_setMemory distinct_stored)

subsection \<open>Runs in which every result is rejected\<close>

lemma run_loop_planned:
  "fst (plan_phase cfg env (new_context g)) = None \<Longrightarrow>
   run_loop cfg g env = Inr (exec_loop cfg env 0 0 (start_world cfg g env))"
  by (simp add: run_loop_def)

lemma final_context_loop:
  "run_loop cfg g env = Inr s \<Longrightarrow> final_context cfg g env = ctx (snd (snd s))"
  by (simp add: final_context_def split_beta)

lemma run_returns:
  "run_loop cfg g env = Inr s \<Longrightarrow> run cfg g env = compile_result (final_context cfg g env)"
  by (simp add: run_def)

lemma example_task_mappable: "mappable (Some example_task)"
  by (simp add: mappable_def example_task_def)

lemma rejecting_env_kept:
  "\<not> requireReview cfg
   \<or> (\<exists>parsed. plan_review_reply (rejecting_env ts) = Inr parsed \<and> parsed_approved parsed)"
  by (simp add: rejecting_env_def parsed_approved_def)

lemma rejecting_env_plannable:
  "list_all (\<lambda>t. mappable (Some t)) ts \<Longrightarrow> plannable (planner_reply (rejecting_env ts))"
  by (simp add: rejecting_env_def plannable_def list_all_iff)

lemma rejecting_env_answers:
  "task_count (planner_reply (rejecting_env ts)) = length ts"
  "exec_ok (executor_reply (rejecting_env ts) j) (browser (rejecting_env ts) j)"
  "\<not> parsed_approved (task_review_reply (rejecting_env ts) j)"
  "elapsed (rejecting_env ts) j = 0"
  by (simp_all add: rejecting_env_def parsed_approved_def task_count_def parsed_tasks_def
        exec_ok_def execute_def parsed_action_def performAction_def perform_GET_STATE_def
        answering_browser_def called_def Let_def)

lemma decimal_digits: "decimal 0 = ''0''" "decimal (Suc 0) = ''1''"
  by (simp_all add: decimal.simps)

lemma rejecting_env_first_task:
  assumes rr: "requireReview cfg" and ar: "autoRetry cfg"
    and fuel: "retryLimit cfg + 1 \<le> maxIterations cfg" and ts: "ts \<noteq> []"
    and shaped: "list_all (\<lambda>t. mappable (Some t)) ts"
  shows "\<exists>w'. run_loop cfg g (rejecting_env ts)
               = Inr (exec_loop cfg (rejecting_env ts) (retryLimit cfg + 1) (retryLimit cfg) w')
          \<and> pendingTasks (ctx w') = [1..<length ts]
          \<and> completedTasks (ctx w') = [0]
          \<and> status_of (ctx w') 0 = Completed
          \<and> exec_count ''task-0'' (ctx w') = retryLimit cfg + 1
          \<and> (\<forall>t. t \<noteq> ''task-0'' \<longrightarrow> exec_count t (ctx w') = 0)
          \<and> rewritten 0 (ctx (start_world cfg g (rejecting_env ts))) (ctx w')
          \<and> pending_wf (ctx w')"
proof -
  let ?env = "rejecting_env ts"
  let ?w = "start_world cfg g ?env"
  note ok = rejecting_env_kept [of cfg ts]
  note pl = rejecting_env_plannable [OF shaped]
  note s = start_world_tasks [OF ok pl, where g = g, unfolded rejecting_env_answers]
  have n: "0 < length ts" using ts by simp
  have wf: "pending_wf (ctx ?w)"
    using start_world_invariants(1) [OF s(6)] by (rule tasks_partitioned_pending_wf)
  have nxt: "getNextTask (ctx ?w) = Some 0"
    using ok pl by (rule start_world_next) (simp add: rejecting_env_answers ts)
  have id0: "id_of (ctx ?w) 0 = ''task-0''"
    using s(4) [OF n] by (simp add: decimal_digits)
  have compl: "completedTasks (ctx ?w) = []"
    using plan_phase_log(2) [of cfg ?env g] by (simp add: start_world_def)
  have rej: "\<And>j. 0 < j \<Longrightarrow> j \<le> 0 + (retryLimit cfg - 0) + 1 \<Longrightarrow>
               exec_ok (executor_reply ?env j) (browser ?env j)
               \<and> \<not> parsed_approved (task_review_reply ?env j)"
    by (simp add: rejecting_env_answers)
  have fuel': "0 + (retryLimit cfg - 0) + 1 \<le> maxIterations cfg"
    using fuel by simp
  from rejected_until_exhausted [OF rr ar wf nxt _ rej fuel']
  obtain w' where w': "exec_loop cfg ?env 0 0 ?w
               = exec_loop cfg ?env (retryLimit cfg + 1) (retryLimit cfg) w'"
    "pendingTasks (ctx w') = remove1 0 (pendingTasks (ctx ?w))"
    "completedTasks (ctx w') = completedTasks (ctx ?w) @ [0]"
    "status_of (ctx w') 0 = Completed"
    "rewritten 0 (ctx ?w) (ctx w')"
    "exec_count (id_of (ctx ?w) 0) (ctx w') = exec_count (id_of (ctx ?w) 0) (ctx ?w) + retryLimit cfg + 1"
    "\<forall>t. t \<noteq> id_of (ctx ?w) 0 \<longrightarrow> exec_count t (ctx w') = exec_count t (ctx ?w)"
    by (auto simp: rejecting_env_answers)
  have p: "pendingTasks (ctx w') = [1..<length ts]"
    using w'(2) n by (simp add: s(1) upt_conv_Cons)
  have "pending_wf (ctx w')"
    using wf w'(5) w'(2) by (rule pending_wf_remove)
  with w' p compl id0 show ?thesis
    by (intro exI [of _ w']) (simp add: run_loop_planned [OF s(6)] start_world_exec_count)
qed

lemma single_rejected_task:
  assumes rr: "requireReview cfg" and ar: "autoRetry cfg"
    and fuel: "retryLimit cfg + 1 \<le> maxIterations cfg"
    and shaped: "mappable (Some t)"
  shows "pendingTasks (final_context cfg g (rejecting_env [t])) = []"
    and "completedTasks (final_context cfg g (rejecting_env [t])) = [0]"
    and "status_of (final_context cfg g (rejecting_env [t])) 0 = Completed"
    and "exec_count ''task-0'' (final_context cfg g (rejecting_env [t])) = retryLimit cfg + 1"
proof -
  let ?env = "rejecting_env [t]"
  let ?i = "retryLimit cfg + 1"
  have "list_all (\<lambda>t. mappable (Some t)) [t]" using shaped by simp
  from rejecting_env_first_task [OF rr ar fuel _ this, of g]
  obtain w' where w': "run_loop cfg g ?env = Inr (exec_loop cfg ?env ?i (retryLimit cfg) w')"
    "pendingTasks (ctx w') = []" "completedTasks (ctx w') = [0]"
    "status_of (ctx w') 0 = Completed" "exec_count ''task-0'' (ctx w') = retryLimit cfg + 1"
    by auto
  have idle: "getNextTask (ctx w') = None"
    by (simp add: getNextTask_def w'(2))
  have "snd (snd (exec_loop cfg ?env ?i (retryLimit cfg) w')) = w'"
  proof (cases "?i < maxIterations cfg")
    case True
    from exec_loop_break [OF True iteration_body_idle [OF idle]] show ?thesis by simp
  next
    case False
    then show ?thesis by (simp add: exec_loop_stop)
  qed
  then have "final_context cfg g ?env = ctx w'"
    by (simp add: final_context_loop [OF w'(1)])
  with w' show "pendingTasks (final_context cfg g (rejecting_env [t])) = []"
    and "completedTasks (final_context cfg g (rejecting_env [t])) = [0]"
    and "status_of (final_context cfg g (rejecting_env [t])) 0 = Completed"
    and "exec_count ''task-0'' (final_context cfg g (rejecting_env [t])) = retryLimit cfg + 1"
    by simp_all
qed


lemma exec_loop_idle:
  "getNextTask (ctx w) = None \<Longrightarrow> snd (snd (exec_loop cfg env i rc w)) = w"
proof (cases "i < maxIterations cfg")
  case True
  assume "getNextTask (ctx w) = None"
  from exec_loop_break [OF True iteration_body_idle [OF this]] show ?thesis by simp
next
  case False
  then show ?thesis by (simp add: exec_loop_stop)
qed

lemma two_rejected_tasks:
  fixes t1 t2 :: TaskJson
  assumes shaped: "mappable (Some t1)" "mappable (Some t2)"
  defines "env \<equiv> rejecting_env [t1, t2]"
  shows "\<exists>w. run_loop (DEFAULT_CONFIG\<lparr>maxIterations := 3\<rparr>) g env = Inr (3, 2, w)"
    and "completedTasks (final_context (DEFAULT_CONFIG\<lparr>maxIterations := 3\<rparr>) g env) = [0]"
    and "status_of (final_context (DEFAULT_CONFIG\<lparr>maxIterations := 3\<rparr>) g env) 0 = Completed"
    and "exec_count ''task-0'' (final_context DEFAULT_CONFIG g env) = 3"
    and "exec_count ''task-1'' (final_context DEFAULT_CONFIG g env) = 1"
proof -
  let ?c3 = "DEFAULT_CONFIG\<lparr>maxIterations := 3\<rparr>"
  have c3: "requireReview ?c3" "autoRetry ?c3" "retryLimit ?c3 + 1 \<le> maxIterations ?c3"
    "retryLimit ?c3 = 2" "maxIterations ?c3 = 3"
    by (simp_all add: DEFAULT_CONFIG_def)
  have sh: "list_all (\<lambda>t. mappable (Some t)) [t1, t2]" using shaped by simp
  from rejecting_env_first_task [OF c3(1-3) _ sh, of g]
  obtain w3 where w3: "run_loop ?c3 g env = Inr (exec_loop ?c3 env 3 2 w3)"
    "completedTasks (ctx w3) = [0]" "status_of (ctx w3) 0 = Completed"
    by (auto simp: c3(4) env_def)
  have stop: "exec_loop ?c3 env 3 2 w3 = (3, 2, w3)"
    by (rule exec_loop_stop) (simp add: c3(5))
  show "\<exists>w. run_loop ?c3 g env = Inr (3, 2, w)"
    by (simp add: w3(1) stop)
  show "completedTasks (final_context ?c3 g env) = [0]"
    and "status_of (final_context ?c3 g env) 0 = Completed"
    by (simp_all add: final_context_loop [OF w3(1)] w3 stop)
next
  let ?d = DEFAULT_CONFIG
  let ?w = "start_world ?d g env"
  have d: "requireReview ?d" "autoRetry ?d" "retryLimit ?d + 1 \<le> maxIterations ?d"
    "retryLimit ?d = 2" "maxIterations ?d = 15"
    by (simp_all add: DEFAULT_CONFIG_def)
  have sh: "list_all (\<lambda>t. mappable (Some t)) [t1, t2]" using shaped by simp
  note s = start_world_tasks [OF rejecting_env_kept rejecting_env_plannable [OF sh],
      where g = g and cfg = ?d, unfolded rejecting_env_answers]
  from rejecting_env_first_task [OF d(1-3) _ sh, of g]
  obtain w' where w': "run_loop ?d g env = Inr (exec_loop ?d env 3 2 w')"
    "pendingTasks (ctx w') = [1]" "exec_count ''task-0'' (ctx w') = 3"
    "exec_count ''task-1'' (ctx w') = 0" "rewritten 0 (ctx ?w) (ctx w')" "pending_wf (ctx w')"
    by (auto simp: d(4) env_def)
  have st1: "status_of (ctx w') 1 = Pending"
    using w'(5) s(3) [of 1] by (simp add: rewritten_def status_of_def env_def)
  have id1: "id_of (ctx w') 1 = ''task-1''"
    using w'(5) s(4) [of 1] by (simp add: rewritten_def decimal_digits env_def)
  have nxt: "getNextTask (ctx w') = Some 1"
    using st1 by (simp add: getNextTask_def w'(2) selectable_def status_of_def)
  have rej: "\<And>j. 3 < j \<Longrightarrow> j \<le> 3 + (retryLimit ?d - 2) + 1 \<Longrightarrow>
               exec_ok (executor_reply env j) (browser env j)
               \<and> \<not> parsed_approved (task_review_reply env j)"
    by (simp add: env_def rejecting_env_answers)
  have fuel: "3 + (retryLimit ?d - 2) + 1 \<le> maxIterations ?d"
    by (simp add: d)
  have rc: "2 \<le> retryLimit ?d" by (simp add: d)
  from rejected_until_exhausted [OF d(1,2) w'(6) nxt rc rej fuel]
  obtain w'' where raw:
    "exec_loop ?d env 3 2 w'
       = (if timeout ?d < elapsed env (3 + (retryLimit ?d - 2) + 1)
          then (3 + (retryLimit ?d - 2) + 1, retryLimit ?d, w'')
          else exec_loop ?d env (3 + (retryLimit ?d - 2) + 1) (retryLimit ?d) w'')"
    "pendingTasks (ctx w'') = remove1 1 (pendingTasks (ctx w'))"
    "exec_count (id_of (ctx w') 1) (ctx w'')
       = exec_count (id_of (ctx w') 1) (ctx w') + (retryLimit ?d - 2) + 1"
    "\<forall>t. t \<noteq> id_of (ctx w') 1 \<longrightarrow> exec_count t (ctx w'') = exec_count t (ctx w')"
    by blast
  have w'': "exec_loop ?d env 3 2 w' = exec_loop ?d env 4 2 w''"
    "pendingTasks (ctx w'') = []"
    "exec_count ''task-1'' (ctx w'') = 1"
    "exec_count ''task-0'' (ctx w'') = 3"
    using raw unfolding id1
    by (simp_all add: d(4) w'(2-4) env_def rejecting_env_answers)
  have "getNextTask (ctx w'') = None"
    by (simp add: getNextTask_def w''(2))
  then have "snd (snd (exec_loop ?d env 4 2 w'')) = w''"
    by (rule exec_loop_idle)
  then have "final_context ?d g env = ctx w''"
    by (simp add: final_context_loop [OF w'(1)] w''(1))
  then show "exec_count ''task-0'' (final_context ?d g env) = 3"
    and "exec_count ''task-1'' (final_context ?d g env) = 1"
    by (simp_all add: w'')
qed

text \<open>While the counter is below the limit, each rejected result leads to one more pass.\<close>

lemma rejected_retries:
  assumes rr: "requireReview cfg" and ar: "autoRetry cfg"
    and wf: "pending_wf (ctx w)" and nxt: "getNextTask (ctx w) = Some r"
    and budget: "rc + k \<le> retryLimit cfg"
    and rej: "\<And>j. i < j \<Longrightarrow> j \<le> i + k \<Longrightarrow>
               exec_ok (executor_reply env j) (browser env j)
               \<and> \<not> parsed_approved (task_review_reply env j)"
    and fuel: "i + k \<le> maxIterations cfg"
  shows "\<exists>w'. exec_loop cfg env i rc w = exec_loop cfg env (i + k) (rc + k) w'
          \<and> pendingTasks (ctx w') = pendingTasks (ctx w)
          \<and> completedTasks (ctx w') = completedTasks (ctx w)
          \<and> status_of (ctx w') r = (if k = 0 then status_of (ctx w) r else Pending)
          \<and> rewritten r (ctx w) (ctx w')
          \<and> exec_count (id_of (ctx w) r) (ctx w') = exec_count (id_of (ctx w) r) (ctx w) + k"
  using wf nxt budget rej fuel
proof (induction k arbitrary: i rc w)
  case 0
  show ?case
    by (intro exI [of _ w]) (simp add: rewritten_refl)
next
  case (Suc k)
  have rcN: "rc < retryLimit cfg" using Suc.prems(3) by simp
  have lt: "i < maxIterations cfg" using Suc.prems(5) by simp
  obtain sg rc' w1 where b: "iteration_body cfg env (i + 1) rc w = (sg, rc', w1)"
    using prod_cases3 by blast
  note e = iteration_body_effect [OF Suc.prems(1,2) b]
  have ok: "exec_ok (executor_reply env (i + 1)) (browser env (i + 1))"
    and na: "\<not> parsed_approved (task_review_reply env (i + 1))"
    using Suc.prems(4) [of "i + 1"] by simp_all
  have sg: "sg = Next" and rc': "rc' = rc + 1"
    and p1: "pendingTasks (ctx w1) = pendingTasks (ctx w)"
    and c1: "completedTasks (ctx w1) = completedTasks (ctx w)"
    and s1: "status_of (ctx w1) r = Pending"
    using e(5-9) ok na rr ar rcN by simp_all
  have "iteration_body cfg env (i + 1) rc w = (Next, rc + 1, w1)"
    using b sg rc' by simp
  from exec_loop_next [OF lt this]
  have loop: "exec_loop cfg env i rc w = exec_loop cfg env (i + 1) (rc + 1) w1" .
  have wf1: "pending_wf (ctx w1)"
    using Suc.prems(1) e(1) p1 by (rule pending_wf_rewritten)
  have sel1: "selectable (ctx w1) r"
    using s1 by (simp add: selectable_def status_of_def)
  have nxt1: "getNextTask (ctx w1) = Some r"
    by (rule getNextTask_rewritten [OF Suc.prems(2) e(1) p1 sel1])
  have id1: "id_of (ctx w1) r = id_of (ctx w) r"
    using e(1) by (simp add: rewritten_def)
  have cnt1: "exec_count (id_of (ctx w) r) (ctx w1) = exec_count (id_of (ctx w) r) (ctx w) + 1"
    using exec_count_log [OF e(4), of "id_of (ctx w) r"] by simp
  have budget1: "rc + 1 + k \<le> retryLimit cfg"
    using Suc.prems(3) by simp
  have rej1: "\<And>j. i + 1 < j \<Longrightarrow> j \<le> i + 1 + k \<Longrightarrow>
               exec_ok (executor_reply env j) (browser env j)
               \<and> \<not> parsed_approved (task_review_reply env j)"
    using Suc.prems(4) by simp
  have fuel1: "i + 1 + k \<le> maxIterations cfg"
    using Suc.prems(5) by simp
  from Suc.IH [OF wf1 nxt1 budget1 rej1 fuel1]
  obtain w' where w': "exec_loop cfg env (i + 1) (rc + 1) w1
                        = exec_loop cfg env (i + 1 + k) (rc + 1 + k) w'"
    "pendingTasks (ctx w') = pendingTasks (ctx w1)"
    "completedTasks (ctx w') = completedTasks (ctx w1)"
    "status_of (ctx w') r = (if k = 0 then status_of (ctx w1) r else Pending)"
    "rewritten r (ctx w1) (ctx w')"
    "exec_count (id_of (ctx w1) r) (ctx w') = exec_count (id_of (ctx w1) r) (ctx w1) + k"
    by blast
  have st: "status_of (ctx w') r = Pending"
    using w'(4) s1 by simp
  have "rewritten r (ctx w) (ctx w')"
    using e(1) w'(5) by (rule rewritten_trans)
  moreover have "exec_count (id_of (ctx w) r) (ctx w')
      = exec_count (id_of (ctx w) r) (ctx w) + Suc k"
    using w'(6) cnt1 by (simp add: id1)
  moreover have "exec_loop cfg env i rc w = exec_loop cfg env (i + Suc k) (rc + Suc k) w'"
    using loop w'(1) by simp
  ultimately show ?case
    using w'(2,3) p1 c1 st
    by (intro exI [of _ w']) simp
qed

lemma capped_rejected_task:
  fixes t :: TaskJson
  assumes shaped: "mappable (Some t)"
  defines "cfg \<equiv> DEFAULT_CONFIG\<lparr>maxIterations := 2\<rparr>"
  defines "env \<equiv> rejecting_env [t]"
  shows "pendingTasks (final_context cfg g env) = [0]"
    and "status_of (final_context cfg g env) 0 = Pending"
    and "exec_count ''task-0'' (final_context cfg g env) = 2"
proof -
  let ?w = "start_world cfg g env"
  have cfg: "requireReview cfg" "autoRetry cfg" "retryLimit cfg = 2" "maxIterations cfg = 2"
    by (simp_all add: cfg_def DEFAULT_CONFIG_def)
  have sh: "list_all (\<lambda>t. mappable (Some t)) [t]" using shaped by simp
  have ok: "\<not> requireReview cfg
      \<or> (\<exists>parsed. plan_review_reply env = Inr parsed \<and> parsed_approved parsed)"
    unfolding env_def by (rule rejecting_env_kept)
  have pl: "plannable (planner_reply env)"
    unfolding env_def by (rule rejecting_env_plannable [OF sh])
  note s = start_world_tasks [OF ok pl, where g = g, unfolded env_def rejecting_env_answers]
  have wf: "pending_wf (ctx ?w)"
    using start_world_invariants(1) [OF s(6) [folded env_def]]
    by (rule tasks_partitioned_pending_wf)
  have nxt: "getNextTask (ctx ?w) = Some 0"
    using ok pl by (rule start_world_next) (simp add: env_def rejecting_env_answers)
  have id0: "id_of (ctx ?w) 0 = ''task-0''"
    using s(4) [of 0] by (simp add: decimal_digits env_def)
  have budget: "0 + 2 \<le> retryLimit cfg" by (simp add: cfg)
  have rej: "\<And>j. 0 < j \<Longrightarrow> j \<le> 0 + 2 \<Longrightarrow>
               exec_ok (executor_reply env j) (browser env j)
               \<and> \<not> parsed_approved (task_review_reply env j)"
    by (simp add: env_def rejecting_env_answers)
  have fuel: "0 + 2 \<le> maxIterations cfg" by (simp add: cfg)
  from rejected_retries [OF cfg(1,2) wf nxt budget rej fuel]
  obtain w' where w': "exec_loop cfg env 0 0 ?w = exec_loop cfg env (0 + 2) (0 + 2) w'"
    "pendingTasks (ctx w') = pendingTasks (ctx ?w)"
    "status_of (ctx w') 0 = (if (2::nat) = 0 then status_of (ctx ?w) 0 else Pending)"
    "exec_count (id_of (ctx ?w) 0) (ctx w') = exec_count (id_of (ctx ?w) 0) (ctx ?w) + 2"
    by blast
  have "exec_loop cfg env (0 + 2) (0 + 2) w' = (0 + 2, 0 + 2, w')"
    by (rule exec_loop_stop) (simp add: cfg)
  then have "final_context cfg g env = ctx w'"
    using final_context_loop [OF run_loop_planned [OF s(6) [folded env_def]]]
    by (simp add: w'(1))
  then show "pendingTasks (final_context cfg g env) = [0]"
    and "status_of (final_context cfg g env) 0 = Pending"
    and "exec_count ''task-0'' (final_context cfg g env) = 2"
    using w'(2-4) id0 s(1) by (simp_all add: start_world_exec_count env_def)
qed

lemma rejecting_env_returns:
  assumes "list_all (\<lambda>t. mappable (Some t)) ts"
  shows "run_loop cfg g (rejecting_env ts)
         = Inr (exec_loop cfg (rejecting_env ts) 0 0 (start_world cfg g (rejecting_env ts)))"
  using start_world_tasks(6) [OF rejecting_env_kept rejecting_env_plannable [OF assms]]
  by (rule run_loop_planned)

subsection \<open>Runs whose plan has no tasks, and runs that end in the \<^verbatim>\<open>catch\<close> block\<close>






section \<open>The claims\<close>

text \<open>
  C1. Scenario C: default configuration (review required, \<^verbatim>\<open>autoRetry\<close>,
  \<^verbatim>\<open>retryLimit = 2\<close>), one task, every execution succeeds and every review rejects.
  The claim is that the task ends \<^verbatim>\<open>rejected\<close>, outside \<^verbatim>\<open>completedTasks\<close>, with
  \<^verbatim>\<open>success = false\<close>. In the code the task is executed three times and the third
  pass falls through to \<^verbatim>\<open>completeTask\<close>: the task ends with status
  \<^verbatim>\<open>completed\<close> in \<^verbatim>\<open>completedTasks\<close> and the result has \<^verbatim>\<open>success = true\<close>.
\<close>

theorem rejected_task_ends_completed:
  "pendingTasks (final_context DEFAULT_CONFIG ''g'' (rejecting_env [example_task])) = []
   \<and> completedTasks (final_context DEFAULT_CONFIG ''g'' (rejecting_env [example_task])) = [0]
   \<and> status_of (final_context DEFAULT_CONFIG ''g'' (rejecting_env [example_task])) 0 = Completed
   \<and> exec_count ''task-0'' (final_context DEFAULT_CONFIG ''g'' (rejecting_env [example_task])) = 3
   \<and> wr_success (run DEFAULT_CONFIG ''g'' (rejecting_env [example_task]))
   \<and> wr_completedTasks (run DEFAULT_CONFIG ''g'' (rejecting_env [example_task])) = 1"
proof -
  have cfg: "requireReview DEFAULT_CONFIG" "autoRetry DEFAULT_CONFIG"
    "retryLimit DEFAULT_CONFIG + 1 \<le> maxIterations DEFAULT_CONFIG"
    by (simp_all add: DEFAULT_CONFIG_def)
  note f = single_rejected_task [OF cfg example_task_mappable, of "''g''"]
  have "list_all (\<lambda>t. mappable (Some t)) [example_task]"
    by (simp add: example_task_mappable)
  note r = run_returns [OF rejecting_env_returns [OF this], of DEFAULT_CONFIG "''g''"]
  have "retryLimit DEFAULT_CONFIG + 1 = 3" by (simp add: DEFAULT_CONFIG_def)
  with f show ?thesis by (simp add: r compile_result_def)
qed


text \<open>
  C3. Throughout a run and at its end, no task is in both \<^verbatim>\<open>pendingTasks\<close> and
  \<^verbatim>\<open>completedTasks\<close>, the tasks of the two collections have pairwise distinct ids,
  and every task of the current plan is in exactly one of the two collections. The states
  of a run are those at the head of the loop and the one in which the loop is left; every
  run whose planning steps do not throw has them.
\<close>

theorem tasks_in_exactly_one_collection:
  assumes "loop_head cfg g env (i, rc, w) \<or> Inr (i, rc, w) = run_loop cfg g env"
  shows "set (pendingTasks (ctx w)) \<inter> set (completedTasks (ctx w)) = {}
       \<and> distinct (map (id_of (ctx w)) (pendingTasks (ctx w) @ completedTasks (ctx w)))
       \<and> list_all (\<lambda>r. r < length (objects (ctx w)))
            (pendingTasks (ctx w) @ completedTasks (ctx w))
       \<and> (\<exists>p. currentPlan (ctx w) = Some p \<and> distinct (plan_tasks p)
              \<and> set (plan_tasks p) = set (pendingTasks (ctx w)) \<union> set (completedTasks (ctx w)))"
proof -
  have inv: "tasks_partitioned (ctx w)"
    using assms by (rule run_invariants)
  then have d: "distinct (map (id_of (ctx w)) (pendingTasks (ctx w) @ completedTasks (ctx w)))"
    by (simp add: tasks_partitioned_def)
  then have "distinct (pendingTasks (ctx w) @ completedTasks (ctx w))"
    by (simp only: distinct_map)
  then have "set (pendingTasks (ctx w)) \<inter> set (completedTasks (ctx w)) = {}"
    by simp
  moreover have "\<exists>p. currentPlan (ctx w) = Some p \<and> distinct (plan_tasks p)
      \<and> set (plan_tasks p) = set (pendingTasks (ctx w)) \<union> set (completedTasks (ctx w))"
    using inv by (auto simp: tasks_partitioned_def split: option.splits)
  ultimately show ?thesis
    using inv d by (simp add: tasks_partitioned_def)
qed

theorem tasks_in_exactly_one_collection_witness:
  "set (pendingTasks (final_context DEFAULT_CONFIG ''g'' (rejecting_env [example_task])))
     \<inter> set (completedTasks (final_context DEFAULT_CONFIG ''g'' (rejecting_env [example_task])))
   = {}"
proof -
  have "list_all (\<lambda>t. mappable (Some t)) [example_task]"
    by (simp add: example_task_mappable)
  from rejecting_env_returns [OF this, of DEFAULT_CONFIG "''g''"]
  obtain i rc w where
    r: "Inr (i, rc, w) = run_loop DEFAULT_CONFIG ''g'' (rejecting_env [example_task])"
    by (metis prod_cases3)
  have "final_context DEFAULT_CONFIG ''g'' (rejecting_env [example_task]) = ctx w"
    using final_context_loop [OF r [symmetric]] by simp
  with tasks_in_exactly_one_collection [OF disjI2, OF r] show ?thesis by simp
qed

text \<open>
  C4. The claim is that the retry counter is zero again whenever a task has been
  completed, so that the next task has the full budget. With two tasks whose results are
  all rejected (default configuration) the code does otherwise: after three passes the
  first task has been completed by \<^verbatim>\<open>completeTask\<close> and the retry counter is still
  2; in the full run the second task is therefore executed once only, although its
  review is rejected too.
\<close>

theorem retry_counter_kept_after_completion:
  "(\<exists>w. run_loop (DEFAULT_CONFIG\<lparr>maxIterations := 3\<rparr>) ''g''
           (rejecting_env [example_task, example_task]) = Inr (3, 2, w))
   \<and> completedTasks (final_context (DEFAULT_CONFIG\<lparr>maxIterations := 3\<rparr>) ''g''
                      (rejecting_env [example_task, example_task])) = [0]
   \<and> status_of (final_context (DEFAULT_CONFIG\<lparr>maxIterations := 3\<rparr>) ''g''
                 (rejecting_env [example_task, example_task])) 0 = Completed
   \<and> exec_count ''task-0''
        (final_context DEFAULT_CONFIG ''g'' (rejecting_env [example_task, example_task])) = 3
   \<and> exec_count ''task-1''
        (final_context DEFAULT_CONFIG ''g'' (rejecting_env [example_task, example_task])) = 1"
  using two_rejected_tasks [OF example_task_mappable example_task_mappable, of "''g''"]
  by simp

text \<open>
  C5, as amended. With retry limit \<open>N\<close>, no task is executed more than \<open>N + 1\<close> times
  in a run, whatever the reviews answer and whether or not \<^verbatim>\<open>autoRetry\<close> is set, and
  the retry counter never exceeds \<open>N\<close>. The loop itself ends after at most
  \<^verbatim>\<open>maxIterations\<close> passes: \<open>exec_loop\<close> is a total function whose termination is
  proved with the measure \<^verbatim>\<open>maxIterations - iteration\<close>.
\<close>

theorem retry_bound:
  assumes "loop_head cfg g env (i, rc, w) \<or> Inr (i, rc, w) = run_loop cfg g env"
  shows "exec_count tid (ctx w) \<le> retryLimit cfg + 1 \<and> rc \<le> retryLimit cfg"
  using run_invariants(2) [OF assms] by (simp add: retry_inv_def)

theorem retry_bound_witness:
  "exec_count ''task-0'' (final_context DEFAULT_CONFIG ''g'' (rejecting_env [example_task]))
   \<le> retryLimit DEFAULT_CONFIG + 1"
proof -
  have "list_all (\<lambda>t. mappable (Some t)) [example_task]"
    by (simp add: example_task_mappable)
  from rejecting_env_returns [OF this, of DEFAULT_CONFIG "''g''"]
  obtain i rc w where
    r: "Inr (i, rc, w) = run_loop DEFAULT_CONFIG ''g'' (rejecting_env [example_task])"
    by (metis prod_cases3)
  have "final_context DEFAULT_CONFIG ''g'' (rejecting_env [example_task]) = ctx w"
    using final_context_loop [OF r [symmetric]] by simp
  with retry_bound [OF disjI2, OF r, of "''task-0''"] show ?thesis by simp
qed

text \<open>
  C5, the final status. With the default \<^verbatim>\<open>retryLimit = 2\<close> and \<^verbatim>\<open>maxIterations = 2\<close>,
  a task whose review always rejects is executed twice; the loop then ends at its
  iteration cap and the task is left in \<^verbatim>\<open>pendingTasks\<close> with status \<^verbatim>\<open>pending\<close>,
  neither \<^verbatim>\<open>rejected\<close> nor \<^verbatim>\<open>failed\<close>.
\<close>

theorem rejected_task_final_status_counterexample:
  "exec_count ''task-0''
     (final_context (DEFAULT_CONFIG\<lparr>maxIterations := 2\<rparr>) ''g'' (rejecting_env [example_task])) = 2
   \<and> pendingTasks
       (final_context (DEFAULT_CONFIG\<lparr>maxIterations := 2\<rparr>) ''g'' (rejecting_env [example_task]))
     = [0]
   \<and> \<not> (status_of (final_context (DEFAULT_CONFIG\<lparr>maxIterations := 2\<rparr>) ''g''
                     (rejecting_env [example_task])) 0 = Rejected
        \<or> status_of (final_context (DEFAULT_CONFIG\<lparr>maxIterations := 2\<rparr>) ''g''
                       (rejecting_env [example_task])) 0 = Failed)"
  using capped_rejected_task [OF example_task_mappable, of "''g''"] by simp




text \<open>
  C7. A review response that does not parse, or that parses to an object without an
  \<^verbatim>\<open>approved\<close> field, yields \<^verbatim>\<open>approved = true\<close> from \<^verbatim>\<open>reviewPlan\<close> and from
  \<^verbatim>\<open>reviewTaskResult\<close>. In \<^verbatim>\<open>run\<close> such a response causes neither a revision of
  the plan nor a retry of the task.
\<close>

theorem review_fails_open:
  "rv_approved (reviewPlan plan None)
   \<and> rv_approved (fst (reviewTaskResult task res None c))
   \<and> rv_approved (reviewPlan plan
        (Some \<lparr>rj_approved = None, rj_feedback = fb, rj_suggestions = sg\<rparr>))
   \<and> rv_approved (fst (reviewTaskResult task res
        (Some \<lparr>rj_approved = None, rj_feedback = fb, rj_suggestions = sg\<rparr>) c))
   \<and> snd (plan_phase cfg (env\<lparr>plan_review_reply := Inr None\<rparr>) c)
       = snd (createPlan (created_plan_id env) (goal c) (planner_reply env) c)
   \<and> fst (plan_phase cfg (env\<lparr>plan_review_reply := Inr None\<rparr>) c)
       = (case fst (createPlan (created_plan_id env) (goal c) (planner_reply env) c) of
            Inl e \<Rightarrow> Some e
          | Inr plan \<Rightarrow> None)
   \<and> \<not> fst (review_step cfg None rc task execResult w)"
proof -
  have "\<not> fst (review_step cfg None rc task execResult w)"
    by (simp add: review_step_def reviewTaskResult_def parsed_approved_def Let_def)
  moreover have "snd (plan_phase cfg (env\<lparr>plan_review_reply := Inr None\<rparr>) c)
       = snd (createPlan (created_plan_id env) (goal c) (planner_reply env) c)"
    and "fst (plan_phase cfg (env\<lparr>plan_review_reply := Inr None\<rparr>) c)
       = (case fst (createPlan (created_plan_id env) (goal c) (planner_reply env) c) of
            Inl e \<Rightarrow> Some e
          | Inr plan \<Rightarrow> None)"
    by (simp_all add: plan_phase_def reviewPlan_def parsed_approved_def Let_def
          split: prod.splits sum.splits)
  ultimately show ?thesis
    by (simp add: reviewPlan_def reviewTaskResult_def parsed_approved_def Let_def)
qed

text \<open>
  C8. If the executor's response yields no action (it does not parse, or it has no
  \<^verbatim>\<open>action\<close> field, or the action is the empty string), \<^verbatim>\<open>execute\<close> returns a
  result with \<^verbatim>\<open>success = false\<close>, no output and an empty list of actions; no browser
  function is called, and the context only gains the \<^verbatim>\<open>execute_start\<close> entry of
  its history.
\<close>

theorem unparsed_action_fails_without_automation:
  assumes "parsed_action parsed = None"
  shows "er_success (fst (execute parsed b task w)) = False
       \<and> er_actions (fst (execute parsed b task w)) = []
       \<and> er_output (fst (execute parsed b task w)) = JUndefined
       \<and> browser_calls (snd (execute parsed b task w)) = browser_calls w
       \<and> ctx (snd (execute parsed b task w))
           = addHistory Executor ''execute_start'' (PTaskId (id_of (ctx w) task)) PNull (ctx w)"
  using assms by (simp add: execute_def Let_def id_of_def)

theorem unparsed_action_fails_without_automation_witness:
  "parsed_action None = None
   \<and> parsed_action (Some \<lparr>aj_action = None, aj_params = None\<rparr>) = None
   \<and> parsed_action (Some \<lparr>aj_action = Some [], aj_params = None\<rparr>) = None
   \<and> er_success (fst (execute None answering_browser 0
        \<lparr>ctx = new_context ''g'', messages = [], browser_calls = []\<rparr>)) = False
   \<and> browser_calls (snd (execute None answering_browser 0
        \<lparr>ctx = new_context ''g'', messages = [], browser_calls = []\<rparr>)) = []"
proof -
  have p: "parsed_action None = None" by (simp add: parsed_action_def)
  from unparsed_action_fails_without_automation [OF p, of answering_browser 0
      "\<lparr>ctx = new_context ''g'', messages = [], browser_calls = []\<rparr>"]
  show ?thesis by (simp add: parsed_action_def)
qed

text \<open>
  C9. Memory is last-write-wins per key, in every context whose memory has pairwise
  distinct keys (the lemmas above: every context that the module builds is one). After
  \<^verbatim>\<open>setMemory(k, v1, s1)\<close> and then
  \<^verbatim>\<open>setMemory(k, v2, s2)\<close>, \<^verbatim>\<open>getMemory(k)\<close> returns \<open>v2\<close>, the memory holds
  exactly one item with key \<open>k\<close> (the second one written), and the items and the lookups
  of every other key are as they were before the two writes.
\<close>

theorem memory_last_write_wins:
  assumes "distinct (map mem_key (memory c))"
  shows "getMemory k (setMemory k v2 s2 (setMemory k v1 s1 c)) = v2
       \<and> filter (\<lambda>m. mem_key m = k) (memory (setMemory k v2 s2 (setMemory k v1 s1 c)))
           = [\<lparr>mem_key = k, mem_value = v2, mem_source = s2\<rparr>]
       \<and> filter (\<lambda>m. mem_key m \<noteq> k) (memory (setMemory k v2 s2 (setMemory k v1 s1 c)))
           = filter (\<lambda>m. mem_key m \<noteq> k) (memory c)
       \<and> (\<forall>k'. k' \<noteq> k \<longrightarrow>
            getMemory k' (setMemory k v2 s2 (setMemory k v1 s1 c)) = getMemory k' c)"
proof -
  let ?c1 = "setMemory k v1 s1 c"
  have d1: "distinct (map mem_key (memory ?c1))"
    using assms by (rule memory_keys_setMemory)
  have "getMemory k (setMemory k v2 s2 ?c1) = v2"
    by (simp add: getMemory_def memory_setMemory [of k v2] find_stored_same)
  moreover have "filter (\<lambda>m. mem_key m = k) (memory (setMemory k v2 s2 ?c1))
      = [\<lparr>mem_key = k, mem_value = v2, mem_source = s2\<rparr>]"
    using d1 by (simp add: memory_setMemory [of k v2] filter_stored_same)
  moreover have "filter (\<lambda>m. mem_key m \<noteq> k) (memory (setMemory k v2 s2 ?c1))
      = filter (\<lambda>m. mem_key m \<noteq> k) (memory c)"
    by (simp add: memory_setMemory filter_stored_other)
  moreover have "\<forall>k'. k' \<noteq> k \<longrightarrow> getMemory k' (setMemory k v2 s2 ?c1) = getMemory k' c"
    by (simp add: getMemory_def memory_setMemory find_stored_other)
  ultimately show ?thesis by blast
qed

theorem memory_last_write_wins_witness:
  "getMemory ''carers'' (setMemory ''carers'' (JNum 2) Executor
      (setMemory ''carers'' (JNum 1) Planner
        (setMemory ''formData'' JNull Executor (new_context ''g'')))) = JNum 2
   \<and> getMemory ''formData'' (setMemory ''carers'' (JNum 2) Executor
      (setMemory ''carers'' (JNum 1) Planner
        (setMemory ''formData'' JNull Executor (new_context ''g'')))) = JNull"
proof -
  let ?c = "setMemory ''formData'' JNull Executor (new_context ''g'')"
  have d: "distinct (map mem_key (memory ?c))"
    by (simp add: setMemory_def new_context_def)
  have g: "getMemory ''formData'' ?c = JNull"
    by (simp add: getMemory_def setMemory_def new_context_def)
  from memory_last_write_wins [OF d, of "''carers''" "JNum 2" Executor "JNum 1" Planner] g
  show ?thesis by simp
qed

text \<open>
  C10. At a loop head where the task selected next is \<open>r\<close> and the execution of the
  coming pass fails: when the run has ended, \<open>r\<close> is still in \<^verbatim>\<open>pendingTasks\<close> with
  status \<^verbatim>\<open>failed\<close>, it is not what \<^verbatim>\<open>getNextTask\<close> returns, it has been executed
  exactly once more than before (the failing attempt itself), and the result of the run
  has \<^verbatim>\<open>success = false\<close>.
\<close>

theorem failed_task_stays_pending:
  assumes head: "loop_head cfg g env (i, rc, w)" and lt: "i < maxIterations cfg"
    and nxt: "getNextTask (ctx w) = Some r"
    and fails: "\<not> exec_ok (executor_reply env (i + 1)) (browser env (i + 1))"
  shows "r \<in> set (pendingTasks (final_context cfg g env))
       \<and> status_of (final_context cfg g env) r = Failed
       \<and> getNextTask (final_context cfg g env) \<noteq> Some r
       \<and> exec_count (id_of (ctx w) r) (final_context cfg g env)
           = exec_count (id_of (ctx w) r) (ctx w) + 1
       \<and> \<not> wr_success (run cfg g env)"
proof -
  let ?tid = "id_of (ctx w) r"
  let ?n = "exec_count ?tid (ctx w) + 1"
  let ?I = "\<lambda>(rc :: nat) w'. pending_wf (ctx w') \<and> r \<in> set (pendingTasks (ctx w'))
      \<and> status_of (ctx w') r = Failed \<and> id_of (ctx w') r = ?tid
      \<and> exec_count ?tid (ctx w') = ?n"
  have wf: "pending_wf (ctx w)"
    using run_invariants(1) [OF disjI1, OF head] by (rule tasks_partitioned_pending_wf)
  have r: "r \<in> set (pendingTasks (ctx w))"
    using nxt by (simp add: getNextTask_Some)
  obtain sg rc1 w1 where b: "iteration_body cfg env (i + 1) rc w = (sg, rc1, w1)"
    using prod_cases3 by blast
  note e = iteration_body_effect [OF wf nxt b]
  have I1: "?I rc1 w1"
  proof -
    have "pending_wf (ctx w1)" using wf b by (rule iteration_body_pending_wf)
    moreover have "r \<in> set (pendingTasks (ctx w1))" using e(7) fails r by simp
    moreover have "status_of (ctx w1) r = Failed" using e(9) fails by simp
    moreover have "id_of (ctx w1) r = ?tid" using e(1) by (simp add: rewritten_def)
    moreover have "exec_count ?tid (ctx w1) = ?n"
      using exec_count_log [OF e(4), of ?tid] by simp
    ultimately show ?thesis by simp
  qed
  have step: "?I rc'' w''" if "?I rc' w'" "iteration_body cfg env j rc' w' = (sg', rc'', w'')"
    for j rc' w' sg' rc'' w''
  proof -
    from that have wf': "pending_wf (ctx w')" and r': "r \<in> set (pendingTasks (ctx w'))"
      and f': "status_of (ctx w') r = Failed" and id': "id_of (ctx w') r = ?tid"
      and n': "exec_count ?tid (ctx w') = ?n" by simp_all
    note k = iteration_body_failed [OF wf' r' f' that(2)]
    have "pending_wf (ctx w'')" using wf' that(2) by (rule iteration_body_pending_wf)
    with k id' n' show ?thesis by simp
  qed
  have sg: "sg = (if timeout cfg < elapsed env (i + 1) then Break else Next)"
    using e(6) fails by simp
  have loop: "run_loop cfg g env = Inr (exec_loop cfg env i rc w)"
    using loop_head_continues [OF head] by simp
  have "exec_loop cfg env i rc w
      = (if sg = Break then (i + 1, rc1, w1) else exec_loop cfg env (i + 1) rc1 w1)"
  proof (cases sg)
    case Break
    with exec_loop_break [OF lt b [unfolded Break]] show ?thesis by simp
  next
    case Next
    with exec_loop_next [OF lt b [unfolded Next]] show ?thesis by simp
  qed
  then have fin: "exec_loop cfg env i rc w
      = (if sg = Break then (i + 1, rc1, w1) else exec_loop cfg env (i + 1) rc1 w1)" .
  have "?I (fst (snd (exec_loop cfg env (i + 1) rc1 w1)))
           (snd (snd (exec_loop cfg env (i + 1) rc1 w1)))"
  proof (rule exec_loop_preserves [where I = ?I])
    show "?I rc1 w1" by (rule I1)
  next
    fix j rc' w' sg' rc'' w''
    assume "?I rc' w'" "iteration_body cfg env j rc' w' = (sg', rc'', w'')"
    then show "?I rc'' w''" by (rule step)
  qed
  with I1 fin have "?I (fst (snd (exec_loop cfg env i rc w))) (snd (snd (exec_loop cfg env i rc w)))"
    by (simp split: if_splits)
  then have final: "r \<in> set (pendingTasks (final_context cfg g env))"
    "status_of (final_context cfg g env) r = Failed"
    "exec_count ?tid (final_context cfg g env) = ?n"
    by (simp_all add: final_context_loop [OF loop])
  have "getNextTask (final_context cfg g env) \<noteq> Some r"
    using final(2) by (auto simp: selectable_def status_of_def dest: getNextTask_Some)
  moreover have "\<not> wr_success (run cfg g env)"
    using final(1) by (auto simp: run_returns [OF loop] compile_result_def)
  ultimately show ?thesis using final by simp
qed

theorem failed_task_stays_pending_witness:
  "status_of (final_context DEFAULT_CONFIG ''g'' unparsable_env) 0 = Failed
   \<and> \<not> wr_success (run DEFAULT_CONFIG ''g'' unparsable_env)"
proof -
  have ok: "\<not> requireReview DEFAULT_CONFIG
      \<or> (\<exists>parsed. plan_review_reply unparsable_env = Inr parsed \<and> parsed_approved parsed)"
    by (simp add: unparsable_env_def parsed_approved_def)
  have pl: "plannable (planner_reply unparsable_env)"
    by (simp add: unparsable_env_def plannable_def example_task_mappable)
  have nxt: "getNextTask (ctx (start_world DEFAULT_CONFIG ''g'' unparsable_env)) = Some 0"
    using ok pl
    by (rule start_world_next) (simp add: unparsable_env_def task_count_def parsed_tasks_def)
  note planned = start_world_tasks(6) [OF ok pl, of "''g''"]
  have lt: "0 < maxIterations DEFAULT_CONFIG"
    by (simp add: DEFAULT_CONFIG_def)
  have fails: "\<not> exec_ok (executor_reply unparsable_env (0 + 1)) (browser unparsable_env (0 + 1))"
    by (simp add: unparsable_env_def exec_ok_def execute_def parsed_action_def Let_def)
  from failed_task_stays_pending [OF loop_head.start [OF planned] lt nxt fails]
  show ?thesis by simp
qed

end
